theory Spec2Isabelle
  imports Complex_Main
begin

chapter \<open>The models\<close>

section \<open>Chain data and operations\<close>

text \<open>
  JavaScript numbers that hold integers (track ids, referendum indices, block numbers)
  are \<open>int\<close>; on-chain balances (\<^verbatim>\<open>u128\<close>, read through \<^verbatim>\<open>toString\<close> or
  \<^verbatim>\<open>BigInt\<close>) are \<open>nat\<close>. Fields that only feed console output (\<^verbatim>\<open>trackName\<close>,
  \<^verbatim>\<open>description\<close>) are left out.

  One entry of \<^verbatim>\<open>convictionVoting.votingFor\<close>: either a delegation (target,
  conviction, balance) or direct votes (the referendum indices, in the order the chain
  lists them, and the prior lock as the pair of unlock block and amount; \<open>None\<close>
  when the test \<^verbatim>\<open>prior && prior.length >= 2\<close> fails).
\<close>

datatype voting =
    Delegating string string nat
  | Casting "int list" "(int \<times> nat) option"

text \<open>
  The calls the scripts construct through \<^verbatim>\<open>api.tx.convictionVoting\<close>:
  \<^verbatim>\<open>delegate(trackId, delegateTo, conviction, balancePlanck)\<close>, \<^verbatim>\<open>undelegate(trackId)\<close>,
  \<^verbatim>\<open>removeVote(trackId, refIndex)\<close> and \<^verbatim>\<open>unlock(trackId, account)\<close>.
\<close>

datatype operation =
    is_Delegate: Delegate int string string int
  | is_Undelegate: Undelegate int
  | is_RemoveVote: RemoveVote int int
  | is_Unlock: Unlock int string

fun op_track :: "operation \<Rightarrow> int" where
  "op_track (Delegate t _ _ _) = t"
| "op_track (Undelegate t) = t"
| "op_track (RemoveVote t _) = t"
| "op_track (Unlock t _) = t"

fun op_track_ref :: "operation \<Rightarrow> int \<times> int" where
  "op_track_ref (RemoveVote t r) = (t, r)"
| "op_track_ref c = (op_track c, 0)"

fun op_balance :: "operation \<Rightarrow> int option" where
  "op_balance (Delegate _ _ _ b) = Some b"
| "op_balance _ = None"

section \<open>Insertion-ordered containers\<close>

text \<open>
  A JavaScript \<^verbatim>\<open>Map\<close> and \<^verbatim>\<open>Set\<close> iterate in insertion order: the \<^verbatim>\<open>Map\<close> is an
  association list whose keys are distinct, the \<^verbatim>\<open>Set\<close> a list without repetition.
\<close>

definition map_has :: "('k \<times> 'v) list \<Rightarrow> 'k \<Rightarrow> bool" where
  "map_has m k = (k \<in> set (map fst m))"

definition map_modify :: "('k \<times> 'v) list \<Rightarrow> 'k \<Rightarrow> ('v \<Rightarrow> 'v) \<Rightarrow> ('k \<times> 'v) list" where
  "map_modify m k f = map (\<lambda>(k', v). if k' = k then (k', f v) else (k', v)) m"

definition set_add :: "'a list \<Rightarrow> 'a \<Rightarrow> 'a list" where
  "set_add s x = (if x \<in> set s then s else s @ [x])"

section \<open>Voting state reader (governance-cleanup.js, getVotingInfo)\<close>

record delegation =
  d_trackId :: int
  d_target :: string
  d_conviction :: string
  d_balance :: nat

record vote =
  v_trackId :: int
  v_refIndex :: int

record prior_lock =
  l_trackId :: int
  unlockBlock :: int
  amount :: nat
  isExpired :: bool
  blocksRemaining :: int

record voting_info =
  delegations :: "delegation list"
  votes :: "vote list"
  priorLocks :: "prior_lock list"
  lockedTracks :: "(int \<times> nat) list"
  currentBlock :: int

text \<open>
  The body of \<^verbatim>\<open>for (const [key, voting] of votingEntries)\<close>. The amount is compared as
  a string with \<^verbatim>\<open>'0'\<close>, which for a \<^verbatim>\<open>u128\<close> is the test \<open>amount \<noteq> 0\<close>.
\<close>

fun read_entry :: "int \<Rightarrow> voting_info \<Rightarrow> int \<times> voting \<Rightarrow> voting_info" where
  "read_entry cb info (trackId, Delegating target conviction balance) =
     info\<lparr>delegations := delegations info @
       [\<lparr>d_trackId = trackId, d_target = target, d_conviction = conviction,
         d_balance = balance\<rparr>]\<rparr>"
| "read_entry cb info (trackId, Casting refs prior) =
     (let info1 = info\<lparr>votes := votes info @
            map (\<lambda>refIndex. \<lparr>v_trackId = trackId, v_refIndex = refIndex\<rparr>) refs\<rparr>
      in case prior of
           None \<Rightarrow> info1
         | Some (ub, am) \<Rightarrow>
             if ub > 0 \<and> am \<noteq> 0
             then info1\<lparr>priorLocks := priorLocks info1 @
                    [\<lparr>l_trackId = trackId, unlockBlock = ub, amount = am,
                      isExpired = (cb \<ge> ub),
                      blocksRemaining = max 0 (ub - cb)\<rparr>]\<rparr>
             else info1)"

definition getVotingInfo ::
  "(int \<times> voting) list \<Rightarrow> int \<Rightarrow> (int \<times> nat) list \<Rightarrow> voting_info" where
  "getVotingInfo votingEntries cb classLocks =
     foldl (read_entry cb)
       \<lparr>delegations = [], votes = [], priorLocks = [], lockedTracks = classLocks,
        currentBlock = cb\<rparr>
       votingEntries"

section \<open>Cleanup plan (governance-cleanup.js, buildCleanupCalls)\<close>

record track_data =
  td_delegated :: bool
  td_votes :: "int list"

text \<open>\<^verbatim>\<open>if (!trackData.has(id)) trackData.set(id, { delegated: false, votes: [] })\<close>\<close>

definition ensure_track :: "(int \<times> track_data) list \<Rightarrow> int \<Rightarrow> (int \<times> track_data) list" where
  "ensure_track trackData t =
     (if map_has trackData t then trackData
      else trackData @ [(t, \<lparr>td_delegated = False, td_votes = []\<rparr>)])"

definition add_delegation :: "(int \<times> track_data) list \<Rightarrow> delegation \<Rightarrow> (int \<times> track_data) list" where
  "add_delegation trackData del =
     map_modify (ensure_track trackData (d_trackId del)) (d_trackId del)
       (\<lambda>data. data\<lparr>td_delegated := True\<rparr>)"

definition add_vote :: "(int \<times> track_data) list \<Rightarrow> vote \<Rightarrow> (int \<times> track_data) list" where
  "add_vote trackData v =
     map_modify (ensure_track trackData (v_trackId v)) (v_trackId v)
       (\<lambda>data. data\<lparr>td_votes := td_votes data @ [v_refIndex v]\<rparr>)"

definition group_by_track :: "delegation list \<Rightarrow> vote list \<Rightarrow> (int \<times> track_data) list" where
  "group_by_track dels vs = foldl add_vote (foldl add_delegation [] dels) vs"

definition undelegate_calls :: "(int \<times> track_data) list \<Rightarrow> operation list" where
  "undelegate_calls trackData =
     concat (map (\<lambda>(trackId, data). if td_delegated data then [Undelegate trackId] else [])
       trackData)"

definition removeVote_calls :: "(int \<times> track_data) list \<Rightarrow> operation list" where
  "removeVote_calls trackData =
     concat (map (\<lambda>(trackId, data). map (RemoveVote trackId) (td_votes data)) trackData)"

definition tracksToUnlock :: "prior_lock list \<Rightarrow> int list" where
  "tracksToUnlock locks =
     foldl (\<lambda>s lock. if isExpired lock then set_add s (l_trackId lock) else s) [] locks"

definition buildCleanupCalls ::
  "delegation list \<Rightarrow> vote list \<Rightarrow> prior_lock list \<Rightarrow> string \<Rightarrow> bool \<Rightarrow> operation list" where
  "buildCleanupCalls dels vs locks account unlockOnly =
     (if \<not> unlockOnly
      then (let trackData = group_by_track dels vs
            in undelegate_calls trackData @ removeVote_calls trackData)
      else [])
     @ map (\<lambda>trackId. Unlock trackId account) (tracksToUnlock locks)"

text \<open>The plan that \<^verbatim>\<open>main\<close> builds from what the reader observed.\<close>

definition cleanup_plan :: "voting_info \<Rightarrow> string \<Rightarrow> bool \<Rightarrow> operation list" where
  "cleanup_plan info account unlockOnly =
     buildCleanupCalls (delegations info) (votes info) (priorLocks info) account unlockOnly"

section \<open>Batch splitting\<close>

text \<open>
  \<^verbatim>\<open>array.slice(start, fin)\<close> for indices \<open>0 \<le> start \<le> fin\<close>: the elements from
  \<open>start\<close> up to, not including, \<open>fin\<close>, cut off at the end of the array.
\<close>

definition slice :: "'a list \<Rightarrow> nat \<Rightarrow> nat \<Rightarrow> 'a list" where
  "slice array start fin = take (fin - start) (drop start array)"

text \<open>
  The loop of \<^verbatim>\<open>chunkArray\<close> (governance-cleanup.js):
  \<^verbatim>\<open>for (let i = 0; i < array.length; i += size) chunks.push(array.slice(i, i + size))\<close>.
  With \<open>sz = 0\<close> and a non-empty array the loop never ends; not returning is the
  value \<open>None\<close>.
\<close>

partial_function (option) chunk_loop ::
  "'a list \<Rightarrow> nat \<Rightarrow> nat \<Rightarrow> 'a list list \<Rightarrow> 'a list list option" where
  "chunk_loop array sz i chunks =
     (if i < length array
      then chunk_loop array sz (i + sz) (chunks @ [slice array i (i + sz)])
      else Some chunks)"

definition chunkArray :: "'a list \<Rightarrow> nat \<Rightarrow> 'a list list option" where
  "chunkArray array sz = chunk_loop array sz 0 []"

text \<open>
  The same loop, written inline in the delegation script (\<^verbatim>\<open>batches.push(calls.slice(i,
  i + MAX_PER_BATCH))\<close>).
\<close>

definition delegate_batches :: "'a list \<Rightarrow> nat \<Rightarrow> 'a list list option" where
  "delegate_batches calls MAX_PER_BATCH = chunk_loop calls MAX_PER_BATCH 0 []"

section \<open>Submission lifecycle\<close>

text \<open>
  What the chain client hands to the status callback of \<^verbatim>\<open>signAndSend\<close>: the
  extrinsic status, the events of the block and the optional dispatch error. The scripts
  read the three fields separately, so the model keeps them separate.
\<close>

datatype status =
    Future | Ready | Broadcast | InBlock | Retracted | FinalityTimeout
  | Finalized | Usurped | Dropped | Invalid

text \<open>
  A dispatch error is a module error (pallet index and error index, decoded by the
  registry) or anything else, of which the scripts take the \<^verbatim>\<open>toString\<close>.
\<close>

datatype dispatch_error = Module nat nat | Other string

record meta_error =
  me_section :: string
  me_name :: string
  me_docs :: "string list"

type_synonym registry = "nat \<Rightarrow> nat \<Rightarrow> meta_error"

record chain_event =
  ev_section :: string
  ev_method :: string
  ev_data0 :: dispatch_error

record notification =
  status :: status
  events :: "chain_event list"
  dispatchError :: "dispatch_error option"

text \<open>\<^verbatim>\<open>docs.join(' ')\<close>\<close>

fun join_space :: "string list \<Rightarrow> string" where
  "join_space [] = []"
| "join_space [d] = d"
| "join_space (d # ds) = d @ '' '' @ join_space ds"

text \<open>
  The message both scripts build from a dispatch error:
  \<^verbatim>\<open>`${decoded.section}.${decoded.name}: ${decoded.docs.join(' ')}`\<close> for a module error,
  \<^verbatim>\<open>dispatchError.toString()\<close> otherwise.
\<close>

definition error_message :: "registry \<Rightarrow> dispatch_error \<Rightarrow> string" where
  "error_message findMetaError e =
     (case e of
        Module i k \<Rightarrow>
          (let decoded = findMetaError i k
           in me_section decoded @ ''.'' @ me_name decoded @ '': '' @ join_space (me_docs decoded))
      | Other s \<Rightarrow> s)"

text \<open>
  How the promise around one submission settles: \<^verbatim>\<open>resolve(true)\<close> on finalization,
  or \<^verbatim>\<open>reject(new Error(...))\<close> at one of the rejection sites, named here after the
  site. \<open>None\<close> in the state is the pending promise.
\<close>

datatype outcome =
    ResolvedFinalized
  | DispatchFailed string
  | RejectedDropped
  | RejectedInvalid
  | RejectedUsurped
  | TimedOut
  | SendFailed string

fun outcome_message :: "outcome \<Rightarrow> string" where
  "outcome_message ResolvedFinalized = []"
| "outcome_message (DispatchFailed m) = m"
| "outcome_message RejectedDropped = ''Transaction was dropped''"
| "outcome_message RejectedInvalid = ''Transaction is invalid''"
| "outcome_message RejectedUsurped = ''Transaction was usurped''"
| "outcome_message TimedOut = ''Transaction timeout - no response after 2 minutes''"
| "outcome_message (SendFailed m) = m"

datatype log_entry = LogInBlock | LogEventError string | LogEventSuccess | LogFinalized

record monitor_state =
  result :: "outcome option"
  timer_armed :: bool
  logged :: "log_entry list"

text \<open>A promise settles once: a later \<^verbatim>\<open>resolve\<close> or \<^verbatim>\<open>reject\<close> changes nothing.\<close>

definition settle :: "outcome \<Rightarrow> monitor_state \<Rightarrow> monitor_state" where
  "settle r st = (if result st = None then st\<lparr>result := Some r\<rparr> else st)"

definition clearTimeout :: "monitor_state \<Rightarrow> monitor_state" where
  "clearTimeout st = st\<lparr>timer_armed := False\<rparr>"

definition console_log :: "log_entry \<Rightarrow> monitor_state \<Rightarrow> monitor_state" where
  "console_log e st = st\<lparr>logged := logged st @ [e]\<rparr>"

subsection \<open>The delegation script's monitor\<close>

definition TIMEOUT_MS :: nat where
  "TIMEOUT_MS = 120000"

text \<open>The body of \<^verbatim>\<open>for (const { event } of events)\<close>: two independent tests, both only logging.\<close>

definition log_event :: "registry \<Rightarrow> monitor_state \<Rightarrow> chain_event \<Rightarrow> monitor_state" where
  "log_event findMetaError st ev =
     (let st1 = (if ev_section ev = ''system'' \<and> ev_method ev = ''ExtrinsicFailed''
                 then console_log (LogEventError (error_message findMetaError (ev_data0 ev))) st
                 else st)
      in if ev_section ev = ''convictionVoting'' \<and> ev_method ev = ''Delegated''
         then console_log LogEventSuccess st1
         else st1)"

text \<open>The status callback of the delegation script, branch by branch.\<close>

definition delegate_callback :: "registry \<Rightarrow> notification \<Rightarrow> monitor_state \<Rightarrow> monitor_state" where
  "delegate_callback findMetaError n st =
     (case dispatchError n of
        Some e \<Rightarrow> settle (DispatchFailed (error_message findMetaError e)) (clearTimeout st)
      | None \<Rightarrow>
          if status n = Dropped then settle RejectedDropped (clearTimeout st)
          else if status n = Invalid then settle RejectedInvalid (clearTimeout st)
          else if status n = Usurped then settle RejectedUsurped (clearTimeout st)
          else
            (let st1 = (if status n = InBlock
                        then foldl (log_event findMetaError) (console_log LogInBlock st) (events n)
                        else st)
             in if status n = Finalized
                then settle ResolvedFinalized (console_log LogFinalized (clearTimeout st1))
                else st1))"

text \<open>
  What can happen to a submission before its timer fires: a notification reaches the
  callback, or the promise of \<^verbatim>\<open>signAndSend\<close> itself is rejected (the \<^verbatim>\<open>.catch\<close>).
\<close>

datatype happening = Notify notification | SendRejected string

definition deliver :: "registry \<Rightarrow> happening \<Rightarrow> monitor_state \<Rightarrow> monitor_state" where
  "deliver findMetaError h st =
     (case h of
        Notify n \<Rightarrow> delegate_callback findMetaError n st
      | SendRejected err \<Rightarrow> settle (SendFailed err) (clearTimeout st))"

text \<open>The timer's function: unsubscribe, then reject.\<close>

definition timeout_fires :: "monitor_state \<Rightarrow> monitor_state" where
  "timeout_fires st = settle TimedOut (st\<lparr>timer_armed := False\<rparr>)"

definition monitor_init :: monitor_state where
  "monitor_init = \<lparr>result = None, timer_armed = True, logged = []\<rparr>"

text \<open>
  One submission of the delegation script. The trace lists what happens, each with its
  time in milliseconds since \<^verbatim>\<open>setTimeout\<close> was called. A happening at or after
  \<open>TIMEOUT_MS\<close> finds the timer fired, if it was still armed: the timer unsubscribes,
  so nothing later is delivered. At the end of the trace time runs on to the deadline.
\<close>

fun run_monitor :: "registry \<Rightarrow> (nat \<times> happening) list \<Rightarrow> monitor_state \<Rightarrow> monitor_state" where
  "run_monitor findMetaError [] st = (if timer_armed st then timeout_fires st else st)"
| "run_monitor findMetaError ((t, h) # rest) st =
     (if TIMEOUT_MS \<le> t \<and> timer_armed st then timeout_fires st
      else run_monitor findMetaError rest (deliver findMetaError h st))"

definition delegate_submission :: "registry \<Rightarrow> (nat \<times> happening) list \<Rightarrow> outcome option" where
  "delegate_submission findMetaError trace = result (run_monitor findMetaError trace monitor_init)"

text \<open>A happening that ends the submission: the callback or the \<^verbatim>\<open>.catch\<close> settles on it.\<close>

definition terminal :: "happening \<Rightarrow> bool" where
  "terminal h =
     (case h of
        SendRejected _ \<Rightarrow> True
      | Notify n \<Rightarrow> dispatchError n \<noteq> None \<or> status n = Dropped \<or> status n = Invalid
          \<or> status n = Usurped \<or> status n = Finalized)"

subsection \<open>The cleanup script's monitor\<close>

text \<open>
  The callback of \<^verbatim>\<open>submitBatchViaProxy\<close> reads \<^verbatim>\<open>status\<close> and \<^verbatim>\<open>dispatchError\<close> only,
  and acts on \<^verbatim>\<open>status.isFinalized\<close> only. There is no timer.
\<close>

definition cleanup_callback :: "registry \<Rightarrow> monitor_state \<Rightarrow> notification \<Rightarrow> monitor_state" where
  "cleanup_callback findMetaError st n =
     (let st1 = (if status n = InBlock then console_log LogInBlock st else st)
      in if status n = Finalized
         then (case dispatchError n of
                 Some e \<Rightarrow> settle (DispatchFailed (error_message findMetaError e)) st1
               | None \<Rightarrow> settle ResolvedFinalized (console_log LogFinalized st1))
         else st1)"

definition cleanup_init :: monitor_state where
  "cleanup_init = \<lparr>result = None, timer_armed = False, logged = []\<rparr>"

text \<open>The promise after all notifications of the trace; \<open>None\<close>: it never settles.\<close>

definition cleanup_submission :: "registry \<Rightarrow> notification list \<Rightarrow> outcome option" where
  "cleanup_submission findMetaError ns = result (foldl (cleanup_callback findMetaError) cleanup_init ns)"

section \<open>Numbers of the delegation script\<close>

text \<open>
  A JavaScript number is an IEEE 754 double: not a number, an infinity, or a finite
  value, kept here as the rational it denotes (the sign of zero is not kept).
\<close>

datatype jsnum = NaN | PosInfinity | NegInfinity | Num rat

text \<open>\<open>floor_log2 x\<close> is \<open>\<lfloor>log\<^sub>2 x\<rfloor>\<close> for \<open>1 \<le> x\<close>; \<open>neg_log2 x\<close> is \<open>- \<lfloor>log\<^sub>2 x\<rfloor>\<close> for \<open>0 < x < 1\<close>.\<close>

function floor_log2 :: "rat \<Rightarrow> nat" where
  "floor_log2 x = (if x < 2 then 0 else Suc (floor_log2 (x / 2)))"
  by pat_completeness auto
termination
proof (relation "measure (\<lambda>x. nat \<lfloor>x\<rfloor>)")
  fix x :: rat
  assume "\<not> x < 2"
  then have "x / 2 \<le> x - 1" by simp
  then have "\<lfloor>x / 2\<rfloor> \<le> \<lfloor>x - 1\<rfloor>" by (rule floor_mono)
  moreover from \<open>\<not> x < 2\<close> have "1 \<le> \<lfloor>x\<rfloor>" by simp
  ultimately show "(x / 2, x) \<in> measure (\<lambda>x. nat \<lfloor>x\<rfloor>)" by simp
qed simp

function neg_log2 :: "rat \<Rightarrow> nat" where
  "neg_log2 x = (if x \<le> 0 \<or> 1 \<le> x then 0 else Suc (neg_log2 (2 * x)))"
  by pat_completeness auto
termination
proof (relation "measure (\<lambda>x. nat \<lceil>1 / x\<rceil>)")
  fix x :: rat
  assume "\<not> (x \<le> 0 \<or> 1 \<le> x)"
  then have x: "0 < x" "x < 1" by simp_all
  then have "1 < 1 / x" by simp
  then have two: "2 \<le> \<lceil>1 / x\<rceil>" by linarith
  have "1 / x \<le> of_int \<lceil>1 / x\<rceil>" by (rule le_of_int_ceiling)
  then have "1 / (2 * x) \<le> of_int \<lceil>1 / x\<rceil> / 2" by simp
  also from two have "\<dots> \<le> of_int (\<lceil>1 / x\<rceil> - 1)" by simp
  finally have "\<lceil>1 / (2 * x)\<rceil> \<le> \<lceil>1 / x\<rceil> - 1" by (simp only: ceiling_le_iff)
  with two have "nat \<lceil>1 / (2 * x)\<rceil> < nat \<lceil>1 / x\<rceil>" by linarith
  then show "(2 * x, x) \<in> measure (\<lambda>x. nat \<lceil>1 / x\<rceil>)"
    unfolding in_measure .
qed simp

definition expo :: "rat \<Rightarrow> int" where
  "expo x = (if 1 \<le> \<bar>x\<bar> then int (floor_log2 \<bar>x\<bar>) else - int (neg_log2 \<bar>x\<bar>))"

definition round_half_even :: "rat \<Rightarrow> int" where
  "round_half_even r =
     (let f = \<lfloor>r\<rfloor>; d = r - of_int f
      in if d < 1 / 2 then f
         else if 1 / 2 < d then f + 1
         else if even f then f else f + 1)"

text \<open>
  Rounding a rational to the nearest double, ties to even: 53 significant bits at the
  exponent of the value, the subnormal spacing \<open>2\<^sup>-\<^sup>1\<^sup>0\<^sup>7\<^sup>4\<close> below the normal range,
  an infinity from \<open>2\<^sup>1\<^sup>0\<^sup>2\<^sup>4\<close> on.
\<close>

definition round_double :: "rat \<Rightarrow> jsnum" where
  "round_double x =
     (if x = 0 then Num 0
      else
        (let q = max (expo x - 52) (- 1074);
             y = of_int (round_half_even (x / 2 powi q)) * 2 powi q
         in if 2 ^ 1024 \<le> y then PosInfinity
            else if y \<le> - (2 ^ 1024) then NegInfinity
            else Num y))"

text \<open>
  The amount argument of the command line as \<^verbatim>\<open>parseFloat\<close> reads it: a decimal
  literal, given by the rational it writes (\<^verbatim>\<open>"4.35"\<close> is \<open>435 / 100\<close>), or text that
  \<^verbatim>\<open>parseFloat\<close> turns into \<^verbatim>\<open>NaN\<close>.
\<close>

datatype amount_arg = NotNumeric | Decimal rat

fun parseFloat :: "amount_arg \<Rightarrow> jsnum" where
  "parseFloat NotNumeric = NaN"
| "parseFloat (Decimal q) = round_double q"

fun js_sign :: "jsnum \<Rightarrow> int option" where
  "js_sign NaN = None"
| "js_sign PosInfinity = Some 1"
| "js_sign NegInfinity = Some (- 1)"
| "js_sign (Num a) = Some (if a = 0 then 0 else if 0 < a then 1 else - 1)"

text \<open>The product of two numbers, rounded once.\<close>

fun js_mul :: "jsnum \<Rightarrow> jsnum \<Rightarrow> jsnum" where
  "js_mul (Num a) (Num b) = round_double (a * b)"
| "js_mul x y =
     (case (js_sign x, js_sign y) of
        (Some s, Some t) \<Rightarrow>
          if s * t = 0 then NaN else if 0 < s * t then PosInfinity else NegInfinity
      | _ \<Rightarrow> NaN)"

text \<open>\<^verbatim>\<open>10 ** decimals\<close>\<close>

definition js_pow10 :: "nat \<Rightarrow> jsnum" where
  "js_pow10 d = round_double (10 ^ d)"

fun Math_floor :: "jsnum \<Rightarrow> jsnum" where
  "Math_floor (Num a) = Num (of_int \<lfloor>a\<rfloor>)"
| "Math_floor x = x"

text \<open>\<^verbatim>\<open>BigInt(x)\<close> throws a \<^verbatim>\<open>RangeError\<close> unless \<open>x\<close> is an integer.\<close>

fun BigInt :: "jsnum \<Rightarrow> int option" where
  "BigInt (Num a) = (if of_int \<lfloor>a\<rfloor> = a then Some \<lfloor>a\<rfloor> else None)"
| "BigInt _ = None"

section \<open>Static tables\<close>

text \<open>
  Reading \<^verbatim>\<open>TABLE[key]\<close> on an object literal finds the literal's own entries and, for
  the names every object inherits from \<^verbatim>\<open>Object.prototype\<close>, a value that is truthy but
  has none of the entry's fields.
\<close>

definition OBJECT_PROTOTYPE_KEYS :: "string list" where
  "OBJECT_PROTOTYPE_KEYS =
     [''constructor'', ''__defineGetter__'', ''__defineSetter__'', ''hasOwnProperty'',
      ''__lookupGetter__'', ''__lookupSetter__'', ''isPrototypeOf'',
      ''propertyIsEnumerable'', ''toString'', ''valueOf'', ''__proto__'',
      ''toLocaleString'']"

datatype 'a js_lookup = Own 'a | Inherited | Missing

definition js_get :: "(string \<times> 'a) list \<Rightarrow> string \<Rightarrow> 'a js_lookup" where
  "js_get table k =
     (case map_of table k of
        Some v \<Rightarrow> Own v
      | None \<Rightarrow> if k \<in> set OBJECT_PROTOTYPE_KEYS then Inherited else Missing)"

record network_config =
  nw_name :: string
  endpoint :: string
  ss58Format :: nat
  maxTracksPerBatch :: nat
  decimals :: nat
  symbol :: string

record network = network_config +
  baseLockDays :: nat

text \<open>\<^verbatim>\<open>NETWORKS\<close> of the delegation script.\<close>

definition NETWORKS :: "(string \<times> network) list" where
  "NETWORKS =
     [(''kusama'',
        \<lparr>nw_name = ''Kusama Asset Hub'',
         endpoint = ''wss://sys.ibp.network:443/asset-hub-kusama'',
         ss58Format = 2, maxTracksPerBatch = 4, decimals = 12, symbol = ''KSM'',
         baseLockDays = 7\<rparr>),
      (''polkadot'',
        \<lparr>nw_name = ''Polkadot Asset Hub'',
         endpoint = ''wss://sys.ibp.network:443/asset-hub-polkadot'',
         ss58Format = 0, maxTracksPerBatch = 4, decimals = 10, symbol = ''DOT'',
         baseLockDays = 28\<rparr>)]"

text \<open>\<^verbatim>\<open>NETWORKS\<close> of the cleanup script.\<close>

definition CLEANUP_NETWORKS :: "(string \<times> network_config) list" where
  "CLEANUP_NETWORKS =
     [(''polkadot'',
        \<lparr>nw_name = ''Polkadot Asset Hub'',
         endpoint = ''wss://sys.ibp.network:443/asset-hub-polkadot'',
         ss58Format = 0, maxTracksPerBatch = 4, decimals = 10, symbol = ''DOT''\<rparr>),
      (''kusama'',
        \<lparr>nw_name = ''Kusama Asset Hub'',
         endpoint = ''wss://sys.ibp.network:443/asset-hub-kusama'',
         ss58Format = 2, maxTracksPerBatch = 4, decimals = 12, symbol = ''KSM''\<rparr>)]"

definition ALL_TRACKS :: "int list" where
  "ALL_TRACKS = [0, 1, 2, 10, 11, 12, 13, 14, 15, 20, 21, 30, 31, 32, 33, 34]"

record conviction_info =
  multiplier :: rat
  lockMultiplier :: nat

definition CONVICTION_MULTIPLIERS :: "(string \<times> conviction_info) list" where
  "CONVICTION_MULTIPLIERS =
     [(''None'', \<lparr>multiplier = 1 / 10, lockMultiplier = 0\<rparr>),
      (''Locked1x'', \<lparr>multiplier = 1, lockMultiplier = 1\<rparr>),
      (''Locked2x'', \<lparr>multiplier = 2, lockMultiplier = 2\<rparr>),
      (''Locked3x'', \<lparr>multiplier = 3, lockMultiplier = 4\<rparr>),
      (''Locked4x'', \<lparr>multiplier = 4, lockMultiplier = 8\<rparr>),
      (''Locked5x'', \<lparr>multiplier = 5, lockMultiplier = 16\<rparr>),
      (''Locked6x'', \<lparr>multiplier = 6, lockMultiplier = 32\<rparr>)]"

section \<open>The delegation script (main)\<close>

text \<open>
  The command line after the positional split of \<^verbatim>\<open>main\<close>: at least five arguments and
  no \<^verbatim>\<open>--help\<close>. \<open>arg_network\<close> is the lower-cased word after \<^verbatim>\<open>--network\<close>, if any;
  \<open>arg_tracks\<close> holds the \<^verbatim>\<open>parseInt\<close> of the word after each \<^verbatim>\<open>--track\<close>, in order.
\<close>

record delegate_args =
  arg_account :: string
  arg_keyfile :: string
  arg_delegateTo :: string
  arg_balance :: amount_arg
  arg_conviction :: string
  arg_dryRun :: bool
  arg_network :: "string option"
  arg_tracks :: "int list"

text \<open>
  What the script meets outside itself: whether the key file exists, the lower-cased
  answer to the confirmation prompt, the registry that decodes module errors, and what
  the chain reports for the \<open>i\<close>-th submitted batch.
\<close>

record delegate_env =
  keyfile_exists :: bool
  answer :: string
  registry_of :: registry
  chain :: "nat \<Rightarrow> operation list \<Rightarrow> (nat \<times> happening) list"

text \<open>\<^verbatim>\<open>BigInt(Math.floor(balanceAmount * (10 ** network.decimals)))\<close>; \<open>None\<close> is the thrown \<^verbatim>\<open>RangeError\<close>.\<close>

definition balancePlanck :: "amount_arg \<Rightarrow> nat \<Rightarrow> int option" where
  "balancePlanck balanceArg d = BigInt (Math_floor (js_mul (parseFloat balanceArg) (js_pow10 d)))"

text \<open>\<^verbatim>\<open>tracks.map(trackId => ({ call: api.tx.convictionVoting.delegate(...), ... }))\<close>\<close>

definition delegate_calls :: "int list \<Rightarrow> string \<Rightarrow> string \<Rightarrow> int \<Rightarrow> operation list" where
  "delegate_calls tracks delegateTo conviction planck =
     map (\<lambda>trackId. Delegate trackId delegateTo conviction planck) tracks"

text \<open>
  The submission loop: every batch is awaited inside \<^verbatim>\<open>try\<close>, a rejection is printed by
  the \<^verbatim>\<open>catch\<close> and the loop goes on. \<open>None\<close>: an awaited promise never settles.
\<close>

fun delegate_submit_loop ::
  "registry \<Rightarrow> (nat \<Rightarrow> operation list \<Rightarrow> (nat \<times> happening) list) \<Rightarrow> nat \<Rightarrow> operation list list
     \<Rightarrow> (operation list \<times> outcome) list option" where
  "delegate_submit_loop reg ch i [] = Some []"
| "delegate_submit_loop reg ch i (batch # rest) =
     (case delegate_submission reg (ch i batch) of
        None \<Rightarrow> None
      | Some r \<Rightarrow> map_option ((#) (batch, r)) (delegate_submit_loop reg ch (Suc i) rest))"

text \<open>How a run of the script ends.\<close>

datatype delegate_end =
    ExitInvalidNetwork
  | ExitInvalidConviction
  | ThrownRangeError
  | ExitKeyfileNotFound
  | DryRunShown "operation list"
  | Aborted "operation list"
  | Done "(operation list \<times> outcome) list"
  | NeverEnds

text \<open>
  \<^verbatim>\<open>main\<close>, in the order of the source. An inherited name passes the test
  \<^verbatim>\<open>if (!network)\<close>, but its \<^verbatim>\<open>decimals\<close> is \<^verbatim>\<open>undefined\<close>: \<^verbatim>\<open>10 ** undefined\<close> is
  \<^verbatim>\<open>NaN\<close>, and \<^verbatim>\<open>BigInt(NaN)\<close> throws. The chain is first contacted after the balance
  is computed.
\<close>

definition delegate_main :: "delegate_env \<Rightarrow> delegate_args \<Rightarrow> delegate_end" where
  "delegate_main env args =
     (let networkName = (case arg_network args of Some n \<Rightarrow> n | None \<Rightarrow> ''kusama'')
      in case js_get NETWORKS networkName of
           Missing \<Rightarrow> ExitInvalidNetwork
         | Inherited \<Rightarrow>
             if js_get CONVICTION_MULTIPLIERS (arg_conviction args) = Missing
             then ExitInvalidConviction else ThrownRangeError
         | Own nw \<Rightarrow>
             (let tracks = (if arg_tracks args \<noteq> [] then arg_tracks args else ALL_TRACKS)
              in if js_get CONVICTION_MULTIPLIERS (arg_conviction args) = Missing
                 then ExitInvalidConviction
                 else
                   (case balancePlanck (arg_balance args) (decimals nw) of
                      None \<Rightarrow> ThrownRangeError
                    | Some planck \<Rightarrow>
                        if \<not> keyfile_exists env then ExitKeyfileNotFound
                        else
                          (let calls = delegate_calls tracks (arg_delegateTo args)
                                 (arg_conviction args) planck
                           in if arg_dryRun args then DryRunShown calls
                              else if answer env \<noteq> ''yes'' then Aborted calls
                              else
                                (case delegate_batches calls (maxTracksPerBatch nw) of
                                   None \<Rightarrow> NeverEnds
                                 | Some batches \<Rightarrow>
                                     (case delegate_submit_loop (registry_of env) (chain env) 0 batches of
                                        None \<Rightarrow> NeverEnds
                                      | Some rs \<Rightarrow> Done rs))))))"

text \<open>
  The exit status: \<^verbatim>\<open>process.exit(1)\<close> at the three checks, 0 when \<^verbatim>\<open>main\<close> returns
  and also when it throws, since \<^verbatim>\<open>main().catch(console.error)\<close> only prints.
\<close>

fun delegate_exit_code :: "delegate_end \<Rightarrow> nat option" where
  "delegate_exit_code ExitInvalidNetwork = Some 1"
| "delegate_exit_code ExitInvalidConviction = Some 1"
| "delegate_exit_code ThrownRangeError = Some 0"
| "delegate_exit_code ExitKeyfileNotFound = Some 1"
| "delegate_exit_code (DryRunShown _) = Some 0"
| "delegate_exit_code (Aborted _) = Some 0"
| "delegate_exit_code (Done _) = Some 0"
| "delegate_exit_code NeverEnds = None"

text \<open>Whether the run reached \<^verbatim>\<open>ApiPromise.create\<close>.\<close>

fun chain_contacted :: "delegate_end \<Rightarrow> bool" where
  "chain_contacted ExitInvalidNetwork = False"
| "chain_contacted ExitInvalidConviction = False"
| "chain_contacted ThrownRangeError = False"
| "chain_contacted _ = True"

text \<open>The calls a run planned, where it got that far.\<close>

fun planned_calls :: "delegate_end \<Rightarrow> operation list option" where
  "planned_calls (DryRunShown calls) = Some calls"
| "planned_calls (Aborted calls) = Some calls"
| "planned_calls (Done rs) = Some (concat (map fst rs))"
| "planned_calls _ = None"

section \<open>The cleanup script (submitBatchViaProxy and main)\<close>

datatype submit_end = Returned | Threw string | NeverReturns

text \<open>
  The loop of \<^verbatim>\<open>submitBatchViaProxy\<close>: a dry run skips the submission; a rejection is
  printed and thrown again, which leaves the loop. The list holds the batches that were
  submitted and settled.
\<close>

fun cleanup_submit_loop ::
  "registry \<Rightarrow> (nat \<Rightarrow> operation list \<Rightarrow> notification list) \<Rightarrow> bool \<Rightarrow> nat \<Rightarrow> operation list list
     \<Rightarrow> (operation list \<times> outcome) list \<times> submit_end" where
  "cleanup_submit_loop reg ch dry i [] = ([], Returned)"
| "cleanup_submit_loop reg ch dry i (batch # rest) =
     (if dry then cleanup_submit_loop reg ch dry (Suc i) rest
      else
        (case cleanup_submission reg (ch i batch) of
           None \<Rightarrow> ([], NeverReturns)
         | Some ResolvedFinalized \<Rightarrow>
             (let (rs, e) = cleanup_submit_loop reg ch dry (Suc i) rest
              in ((batch, ResolvedFinalized) # rs, e))
         | Some r \<Rightarrow> ([(batch, r)], Threw (outcome_message r))))"

definition submitBatchViaProxy ::
  "registry \<Rightarrow> (nat \<Rightarrow> operation list \<Rightarrow> notification list) \<Rightarrow> operation list
     \<Rightarrow> network_config \<Rightarrow> bool \<Rightarrow> (operation list \<times> outcome) list \<times> submit_end" where
  "submitBatchViaProxy reg ch calls networkConfig dry =
     (case chunkArray calls (maxTracksPerBatch networkConfig) of
        None \<Rightarrow> ([], NeverReturns)
      | Some batches \<Rightarrow> cleanup_submit_loop reg ch dry 0 batches)"

record cleanup_env =
  c_votingEntries :: "(int \<times> voting) list"
  c_currentBlock :: int
  c_classLocks :: "(int \<times> nat) list"
  c_answer :: string
  c_registry :: registry
  c_chain :: "nat \<Rightarrow> operation list \<Rightarrow> notification list"

datatype cleanup_end =
    NothingToDo
  | CleanupAborted
  | Complete "(operation list \<times> outcome) list"
  | Fatal "(operation list \<times> outcome) list" string
  | Hangs "(operation list \<times> outcome) list"

text \<open>
  \<^verbatim>\<open>main\<close> of the cleanup script from the chain connection on (the argument checks and
  the loading of the mnemonic come before and end the process with status 1).
\<close>

definition cleanup_main ::
  "cleanup_env \<Rightarrow> network_config \<Rightarrow> string \<Rightarrow> bool \<Rightarrow> bool \<Rightarrow> cleanup_end" where
  "cleanup_main env networkConfig account dry unlockOnly =
     (let info = getVotingInfo (c_votingEntries env) (c_currentBlock env) (c_classLocks env);
          calls = cleanup_plan info account unlockOnly
      in if calls = [] then NothingToDo
         else if \<not> dry \<and> c_answer env \<noteq> ''yes'' \<and> c_answer env \<noteq> ''y'' then CleanupAborted
         else
           (case submitBatchViaProxy (c_registry env) (c_chain env) calls networkConfig dry of
              (rs, Returned) \<Rightarrow> Complete rs
            | (rs, Threw msg) \<Rightarrow> Fatal rs msg
            | (rs, NeverReturns) \<Rightarrow> Hangs rs))"

text \<open>
  The exit status: 0 when \<^verbatim>\<open>main\<close> returns; a thrown error reaches
  \<^verbatim>\<open>main().catch\<close>, which calls \<^verbatim>\<open>process.exit(1)\<close>.
\<close>

fun cleanup_exit_code :: "cleanup_end \<Rightarrow> nat option" where
  "cleanup_exit_code NothingToDo = Some 0"
| "cleanup_exit_code CleanupAborted = Some 0"
| "cleanup_exit_code (Complete _) = Some 0"
| "cleanup_exit_code (Fatal _ _) = Some 1"
| "cleanup_exit_code (Hangs _) = None"

section \<open>The delegation status checker (check-delegation.js)\<close>

record delegation_summary =
  delegationCount :: nat
  voteCount :: nat
  totalDelegated :: nat

text \<open>The body of \<^verbatim>\<open>for (const [key, voting] of entries)\<close>, without the display lists.\<close>

fun check_entry :: "delegation_summary \<Rightarrow> int \<times> voting \<Rightarrow> delegation_summary" where
  "check_entry s (trackId, Delegating target conviction balance) =
     s\<lparr>totalDelegated := (if balance > totalDelegated s then balance else totalDelegated s),
       delegationCount := delegationCount s + 1\<rparr>"
| "check_entry s (trackId, Casting refs prior) =
     s\<lparr>voteCount := voteCount s + length refs\<rparr>"

definition check_delegation :: "(int \<times> voting) list \<Rightarrow> delegation_summary" where
  "check_delegation entries =
     foldl check_entry \<lparr>delegationCount = 0, voteCount = 0, totalDelegated = 0\<rparr> entries"

text \<open>
  The amount behind the summary line \<^verbatim>\<open>Delegation amount\<close>, in minor units; the line is
  printed only \<^verbatim>\<open>if (totalDelegated > 0)\<close>, divided by \<^verbatim>\<open>10 ** decimals\<close> for display.
\<close>

definition reported_amount :: "(int \<times> voting) list \<Rightarrow> nat option" where
  "reported_amount entries =
     (let s = check_delegation entries
      in if totalDelegated s > 0 then Some (totalDelegated s) else None)"

text \<open>The balances of the delegating entries, in the order of the entries.\<close>

fun delegated_balances :: "(int \<times> voting) list \<Rightarrow> nat list" where
  "delegated_balances [] = []"
| "delegated_balances ((trackId, Delegating target conviction balance) # es) =
     balance # delegated_balances es"
| "delegated_balances ((trackId, Casting refs prior) # es) = delegated_balances es"

section \<open>Notions used in the statements\<close>

text \<open>The order in which values are first met: a list read into a \<^verbatim>\<open>Set\<close>.\<close>

definition insertion_order :: "'a list \<Rightarrow> 'a list" where
  "insertion_order xs = foldl set_add [] xs"

text \<open>The referendum indices voted on a track, in the order of the votes.\<close>

definition refs_of :: "int \<Rightarrow> vote list \<Rightarrow> int list" where
  "refs_of t vs = map v_refIndex (filter (\<lambda>v. v_trackId v = t) vs)"

text \<open>Ascending by track id, then by referendum index.\<close>

definition track_ref_le :: "int \<times> int \<Rightarrow> int \<times> int \<Rightarrow> bool" where
  "track_ref_le a b = (fst a < fst b \<or> (fst a = fst b \<and> snd a \<le> snd b))"

text \<open>
  The entries of one account in ascending order of track id, no track twice, each
  list of direct votes ascending by referendum index.
\<close>

fun casting_sorted :: "int \<times> voting \<Rightarrow> bool" where
  "casting_sorted (t, Casting refs prior) = sorted refs"
| "casting_sorted (t, Delegating target conviction balance) = True"

definition entries_ascending :: "(int \<times> voting) list \<Rightarrow> bool" where
  "entries_ascending es = (sorted_wrt (<) (map fst es) \<and> list_all casting_sorted es)"




chapter \<open>Properties\<close>

section \<open>Batch splitting returns the plan in order\<close>

lemma chunk_loop_total:
  assumes "0 < sz"
  shows "\<exists>cs. chunk_loop array sz i chunks = Some (chunks @ cs)
           \<and> concat cs = drop i array
           \<and> (\<forall>c\<in>set cs. c \<noteq> [] \<and> length c \<le> sz)
           \<and> length cs = (length array - i + sz - 1) div sz
           \<and> (\<forall>k<length cs. cs ! k = slice array (i + k * sz) (i + k * sz + sz))"
proof (induction "length array - i" arbitrary: i chunks rule: less_induct)
  case less
  show ?case
  proof (cases "i < length array")
    case False
    then have "chunk_loop array sz i chunks = Some (chunks @ [])"
      by (subst chunk_loop.simps) simp
    moreover from False assms have "(length array - i + sz - 1) div sz = 0"
      by simp
    ultimately show ?thesis
      using False by (intro exI [of _ "[]"]) simp
  next
    case True
    let ?c = "slice array i (i + sz)"
    from True assms have "length array - (i + sz) < length array - i"
      by arith
    from less [OF this, of "chunks @ [?c]"] obtain cs where
      run: "chunk_loop array sz (i + sz) (chunks @ [?c]) = Some ((chunks @ [?c]) @ cs)"
      and cat: "concat cs = drop (i + sz) array"
      and each: "\<forall>c\<in>set cs. c \<noteq> [] \<and> length c \<le> sz"
      and len: "length cs = (length array - (i + sz) + sz - 1) div sz"
      and nth: "\<forall>k<length cs. cs ! k = slice array (i + sz + k * sz) (i + sz + k * sz + sz)"
      by blast
    have step: "chunk_loop array sz i chunks = Some (chunks @ (?c # cs))"
      using True run by (subst chunk_loop.simps) simp
    have c_ne: "?c \<noteq> []" and c_le: "length ?c \<le> sz"
      using True assms by (simp_all add: slice_def)
    have "?c @ drop (i + sz) array = drop i array"
      by (simp add: slice_def add.commute [of i sz] flip: drop_drop)
    then have cat': "concat (?c # cs) = drop i array"
      using cat by simp
    have "(length array - i + sz - 1) div sz = Suc ((length array - (i + sz) + sz - 1) div sz)"
    proof (cases "sz \<le> length array - i")
      case True
      define a where "a = length array - (i + sz) + sz - 1"
      from True assms have "length array - i + sz - 1 = a + sz"
        unfolding a_def by arith
      moreover have "(a + sz) div sz = Suc (a div sz)"
        using assms by simp
      ultimately show ?thesis
        unfolding a_def by simp
    next
      case False
      with True assms have "length array - (i + sz) + sz - 1 < sz"
        and "sz \<le> length array - i + sz - 1" and "length array - i + sz - 1 < sz + sz"
        by arith+
      then show ?thesis
        by (simp add: div_nat_eqI)
    qed
    with len have len': "length (?c # cs) = (length array - i + sz - 1) div sz"
      by simp
    have nth': "\<forall>k<length (?c # cs). (?c # cs) ! k = slice array (i + k * sz) (i + k * sz + sz)"
    proof (intro allI impI)
      fix k
      assume "k < length (?c # cs)"
      then show "(?c # cs) ! k = slice array (i + k * sz) (i + k * sz + sz)"
        using nth by (cases k) (simp_all add: add.assoc)
    qed
    from step cat' each c_ne c_le len' nth' show ?thesis
      by (intro exI [of _ "?c # cs"]) simp
  qed
qed

text \<open>
  Claim C7. For every plan of \<open>N\<close> operations and every positive \<open>maxPerBatch\<close>, both
  splitting loops return, with \<open>\<lceil>N / maxPerBatch\<rceil>\<close> chunks, each non-empty and of at most
  \<open>maxPerBatch\<close> operations, the \<open>k\<close>-th chunk being the slice of the plan that starts at
  \<open>k * maxPerBatch\<close>, and the chunks concatenated in order are the plan. The witness splits
  sixteen \<open>Delegate\<close> operations with \<open>maxPerBatch = 4\<close> into exactly four chunks of four.
\<close>

theorem chunkArray_partition:
  assumes "0 < maxPerBatch"
  shows "\<exists>chunks. chunkArray plan maxPerBatch = Some chunks
           \<and> delegate_batches plan maxPerBatch = Some chunks
           \<and> length chunks = (length plan + maxPerBatch - 1) div maxPerBatch
           \<and> (\<forall>c\<in>set chunks. c \<noteq> [] \<and> length c \<le> maxPerBatch)
           \<and> (\<forall>k<length chunks.
                 chunks ! k = slice plan (k * maxPerBatch) (k * maxPerBatch + maxPerBatch))
           \<and> concat chunks = plan"
proof -
  from chunk_loop_total [OF assms, of plan 0 "[]"] obtain cs where
    "chunk_loop plan maxPerBatch 0 [] = Some cs"
    "concat cs = plan"
    "\<forall>c\<in>set cs. c \<noteq> [] \<and> length c \<le> maxPerBatch"
    "length cs = (length plan + maxPerBatch - 1) div maxPerBatch"
    "\<forall>k<length cs. cs ! k = slice plan (k * maxPerBatch) (k * maxPerBatch + maxPerBatch)"
    by auto
  then show ?thesis
    unfolding chunkArray_def delegate_batches_def by (intro exI [of _ cs]) simp
qed

theorem chunkArray_partition_witness:
  "(0::nat) < 4 \<and>
   (\<exists>chunks. chunkArray (delegate_calls ALL_TRACKS ''target'' ''Locked1x'' 650000000000000) 4
        = Some chunks
      \<and> map length chunks = [4, 4, 4, 4]
      \<and> concat chunks = delegate_calls ALL_TRACKS ''target'' ''Locked1x'' 650000000000000)"
proof -
  let ?plan = "delegate_calls ALL_TRACKS ''target'' ''Locked1x'' 650000000000000"
  have n: "length ?plan = 16"
    by (simp add: delegate_calls_def ALL_TRACKS_def)
  from chunkArray_partition [of 4 ?plan] obtain chunks where
    run: "chunkArray ?plan 4 = Some chunks"
    and len: "length chunks = 4"
    and each: "\<forall>c\<in>set chunks. c \<noteq> [] \<and> length c \<le> 4"
    and cat: "concat chunks = ?plan"
    unfolding n by auto
  from len obtain a b c d where chunks: "chunks = [a, b, c, d]"
    by (auto simp: length_Suc_conv numeral_eq_Suc)
  from cat n have "length (concat chunks) = 16"
    by simp
  with each have "map length chunks = [4, 4, 4, 4]"
    unfolding chunks by auto
  with run cat show ?thesis
    by auto
qed

section \<open>Insertion order\<close>

lemma set_set_add: "set (set_add s x) = insert x (set s)"
  by (auto simp: set_add_def)

lemma distinct_set_add: "distinct s \<Longrightarrow> distinct (set_add s x)"
  by (simp add: set_add_def)

lemma insertion_order_snoc: "insertion_order (xs @ [x]) = set_add (insertion_order xs) x"
  by (simp add: insertion_order_def)

lemma insertion_order_Nil: "insertion_order [] = []"
  by (simp add: insertion_order_def)

lemma set_insertion_order: "set (insertion_order xs) = set xs"
  by (induction xs rule: rev_induct)
    (simp_all add: insertion_order_Nil insertion_order_snoc set_set_add)

lemma distinct_insertion_order: "distinct (insertion_order xs)"
  by (induction xs rule: rev_induct)
    (simp_all add: insertion_order_Nil insertion_order_snoc distinct_set_add)

lemma insertion_order_sorted:
  fixes xs :: "int list"
  shows "sorted xs \<Longrightarrow> sorted_wrt (<) (insertion_order xs)"
proof (induction xs rule: rev_induct)
  case Nil
  show ?case by (simp add: insertion_order_Nil)
next
  case (snoc x xs)
  from snoc.prems have sorted: "sorted xs" and le: "\<forall>y\<in>set xs. y \<le> x"
    by (simp_all add: sorted_append)
  from snoc.IH [OF sorted] have IH: "sorted_wrt (<) (insertion_order xs)" .
  show ?case
  proof (cases "x \<in> set xs")
    case True
    with IH show ?thesis
      by (simp add: insertion_order_snoc set_add_def set_insertion_order)
  next
    case False
    with le have "\<forall>y\<in>set xs. y < x"
      by (auto simp: order.strict_iff_order)
    with IH False show ?thesis
      by (simp add: insertion_order_snoc set_add_def set_insertion_order sorted_wrt_append)
  qed
qed

lemma insertion_order_distinct_id: "distinct xs \<Longrightarrow> insertion_order xs = xs"
  by (induction xs rule: rev_induct)
    (simp_all add: insertion_order_Nil insertion_order_snoc set_add_def set_insertion_order)

lemma insertion_order_append_filter:
  "filter (\<lambda>x. x \<in> set xs) (insertion_order (xs @ ys)) = insertion_order xs"
proof (induction ys rule: rev_induct)
  case Nil
  have "filter (\<lambda>x. x \<in> set (insertion_order xs)) (insertion_order xs) = insertion_order xs"
    by (rule filter_True) simp
  then show ?case
    by (simp add: set_insertion_order)
next
  case (snoc y ys)
  have "insertion_order (xs @ ys @ [y]) = set_add (insertion_order (xs @ ys)) y"
    using insertion_order_snoc [of "xs @ ys" y] by simp
  with snoc show ?case
    by (auto simp: set_add_def set_insertion_order)
qed

lemma insertion_order_append_filter_disjoint:
  assumes "set xs \<inter> set ys = {}"
  shows "filter (\<lambda>x. x \<in> set ys) (insertion_order (xs @ ys)) = insertion_order ys"
  using assms
proof (induction ys rule: rev_induct)
  case Nil
  show ?case by (simp add: insertion_order_Nil)
next
  case (snoc y ys)
  from snoc.prems have disj: "set xs \<inter> set ys = {}" and y: "y \<notin> set xs"
    by auto
  have eq: "insertion_order (xs @ ys @ [y]) = set_add (insertion_order (xs @ ys)) y"
    using insertion_order_snoc [of "xs @ ys" y] by simp
  have same: "filter (\<lambda>x. x \<in> set (ys @ [y])) (insertion_order (xs @ ys))
    = filter (\<lambda>x. x \<in> set ys) (insertion_order (xs @ ys))" if "y \<notin> set ys"
    using that y by (intro filter_cong) (auto simp: set_insertion_order)
  show ?case
  proof (cases "y \<in> set ys")
    case True
    then have "set (ys @ [y]) = set ys" by auto
    with True snoc.IH [OF disj] show ?thesis
      unfolding eq by (simp add: set_add_def set_insertion_order insertion_order_snoc)
  next
    case False
    with y snoc.IH [OF disj] same [OF False] show ?thesis
      unfolding eq by (simp add: set_add_def set_insertion_order insertion_order_snoc)
  qed
qed

lemma tracksToUnlock_fold:
  "foldl (\<lambda>s lock. if isExpired lock then set_add s (l_trackId lock) else s) s locks
     = foldl set_add s (map l_trackId (filter isExpired locks))"
  by (induction locks arbitrary: s) simp_all

lemma tracksToUnlock_eq:
  "tracksToUnlock locks = insertion_order (map l_trackId (filter isExpired locks))"
  by (simp add: tracksToUnlock_def insertion_order_def tracksToUnlock_fold)

section \<open>The track table of the cleanup plan\<close>

lemma map_has_map: "map_has (map (\<lambda>t. (t, g t)) ks) t \<longleftrightarrow> t \<in> set ks"
  by (auto simp: map_has_def image_iff)

lemma map_modify_map:
  "map_modify (map (\<lambda>t. (t, g t)) ks) k f = map (\<lambda>t. (t, if t = k then f (g t) else g t)) ks"
  by (simp add: map_modify_def)

lemma map_modify_append:
  "map_modify (m @ m') k f = map_modify m k f @ map_modify m' k f"
  by (simp add: map_modify_def)

lemma map_modify_single: "map_modify [(k, d)] k f = [(k, f d)]"
  by (simp add: map_modify_def)

text \<open>After the delegations: one entry per delegating track, in the order first met.\<close>

lemma delegations_grouped:
  "foldl add_delegation [] dels
     = map (\<lambda>t. (t, \<lparr>td_delegated = True, td_votes = []\<rparr>))
         (insertion_order (map d_trackId dels))"
proof (induction dels rule: rev_induct)
  case Nil
  show ?case by (simp add: insertion_order_Nil)
next
  case (snoc d dels)
  let ?K = "insertion_order (map d_trackId dels)"
  let ?g = "\<lambda>t::int. \<lparr>td_delegated = True, td_votes = []\<rparr>"
  have IH: "foldl add_delegation [] dels = map (\<lambda>t. (t, ?g t)) ?K"
    by (rule snoc.IH)
  have K': "insertion_order (map d_trackId (dels @ [d])) = set_add ?K (d_trackId d)"
    by (simp add: insertion_order_snoc)
  show ?case
  proof (cases "d_trackId d \<in> set ?K")
    case True
    then have "add_delegation (map (\<lambda>t. (t, ?g t)) ?K) d = map (\<lambda>t. (t, ?g t)) ?K"
      by (simp add: add_delegation_def ensure_track_def map_has_map map_modify_map)
    with True show ?thesis
      by (simp add: IH insertion_order_snoc set_add_def)
  next
    case False
    then have "add_delegation (map (\<lambda>t. (t, ?g t)) ?K) d
      = map (\<lambda>t. (t, ?g t)) ?K @ [(d_trackId d, ?g (d_trackId d))]"
      by (simp add: add_delegation_def ensure_track_def map_has_map map_modify_append
          map_modify_map map_modify_single)
    with False show ?thesis
      by (simp add: IH insertion_order_snoc set_add_def)
  qed
qed

text \<open>
  After the votes as well: one entry per track in the order first met, delegations
  first; the entry of a track says whether it delegates and lists its votes in order.
\<close>

lemma group_by_track_eq:
  "group_by_track dels vs
     = map (\<lambda>t. (t, \<lparr>td_delegated = (t \<in> d_trackId ` set dels), td_votes = refs_of t vs\<rparr>))
         (insertion_order (map d_trackId dels @ map v_trackId vs))"
proof (induction vs rule: rev_induct)
  case Nil
  have "map (\<lambda>t. (t, \<lparr>td_delegated = True, td_votes = []\<rparr>)) (insertion_order (map d_trackId dels))
    = map (\<lambda>t. (t, \<lparr>td_delegated = (t \<in> d_trackId ` set dels), td_votes = []\<rparr>))
        (insertion_order (map d_trackId dels))"
    by (rule map_cong) (auto simp: set_insertion_order)
  then show ?case
    by (simp add: group_by_track_def delegations_grouped refs_of_def)
next
  case (snoc v vs)
  let ?D = "d_trackId ` set dels"
  let ?K = "insertion_order (map d_trackId dels @ map v_trackId vs)"
  let ?g = "\<lambda>ws t. \<lparr>td_delegated = (t \<in> ?D), td_votes = refs_of t ws\<rparr>"
  let ?t = "v_trackId v"
  have IH: "group_by_track dels vs = map (\<lambda>t. (t, ?g vs t)) ?K"
    by (rule snoc.IH)
  have step: "group_by_track dels (vs @ [v]) = add_vote (group_by_track dels vs) v"
    by (simp add: group_by_track_def)
  have K': "insertion_order (map d_trackId dels @ map v_trackId (vs @ [v])) = set_add ?K ?t"
    using insertion_order_snoc [of "map d_trackId dels @ map v_trackId vs" ?t] by simp
  have refs: "refs_of t (vs @ [v]) = (if t = ?t then refs_of t vs @ [v_refIndex v] else refs_of t vs)"
    for t by (auto simp: refs_of_def)
  show ?case
  proof (cases "?t \<in> set ?K")
    case True
    then have "add_vote (map (\<lambda>t. (t, ?g vs t)) ?K) v
      = map (\<lambda>t. (t, if t = ?t then (?g vs t)\<lparr>td_votes := td_votes (?g vs t) @ [v_refIndex v]\<rparr>
                      else ?g vs t)) ?K"
      by (simp add: add_vote_def ensure_track_def map_has_map map_modify_map)
    also have "\<dots> = map (\<lambda>t. (t, ?g (vs @ [v]) t)) ?K"
      by (rule map_cong) (simp_all add: refs)
    finally show ?thesis
      using True by (simp only: step IH K' set_add_def if_True)
  next
    case False
    then have notD: "?t \<notin> ?D" and notV: "?t \<notin> v_trackId ` set vs"
      by (auto simp: set_insertion_order)
    have norefs: "refs_of ?t vs = []"
      unfolding refs_of_def map_is_Nil_conv filter_empty_conv
    proof
      fix w
      assume "w \<in> set vs"
      with notV show "v_trackId w \<noteq> ?t"
        by (metis imageI)
    qed
    from False have "add_vote (map (\<lambda>t. (t, ?g vs t)) ?K) v
      = map (\<lambda>t. (t, if t = ?t then (?g vs t)\<lparr>td_votes := td_votes (?g vs t) @ [v_refIndex v]\<rparr>
                      else ?g vs t)) ?K
        @ [(?t, \<lparr>td_delegated = False, td_votes = [v_refIndex v]\<rparr>)]"
      by (simp add: add_vote_def ensure_track_def map_has_map map_modify_append
          map_modify_map map_modify_single)
    also have "map (\<lambda>t. (t, if t = ?t then (?g vs t)\<lparr>td_votes := td_votes (?g vs t) @ [v_refIndex v]\<rparr>
                      else ?g vs t)) ?K = map (\<lambda>t. (t, ?g (vs @ [v]) t)) ?K"
      by (rule map_cong) (simp_all add: refs)
    also have "[(?t, \<lparr>td_delegated = False, td_votes = [v_refIndex v]\<rparr>)]
      = map (\<lambda>t. (t, ?g (vs @ [v]) t)) [?t]"
      using notD norefs by (simp add: refs)
    finally have av: "add_vote (map (\<lambda>t. (t, ?g vs t)) ?K) v
      = map (\<lambda>t. (t, ?g (vs @ [v]) t)) ?K @ map (\<lambda>t. (t, ?g (vs @ [v]) t)) [?t]" .
    have "group_by_track dels (vs @ [v]) = add_vote (map (\<lambda>t. (t, ?g vs t)) ?K) v"
      by (simp only: step IH)
    also note av
    also have "map (\<lambda>t. (t, ?g (vs @ [v]) t)) ?K @ map (\<lambda>t. (t, ?g (vs @ [v]) t)) [?t]
      = map (\<lambda>t. (t, ?g (vs @ [v]) t)) (set_add ?K ?t)"
      using False by (simp add: set_add_def)
    finally show ?thesis
      by (simp only: K')
  qed
qed

lemma undelegate_calls_map:
  "undelegate_calls (map (\<lambda>t. (t, g t)) ks)
     = map Undelegate (filter (\<lambda>t. td_delegated (g t)) ks)"
  by (induction ks) (simp_all add: undelegate_calls_def)

lemma removeVote_calls_map:
  "removeVote_calls (map (\<lambda>t. (t, g t)) ks)
     = concat (map (\<lambda>t. map (RemoveVote t) (td_votes (g t))) ks)"
  by (induction ks) (simp_all add: removeVote_calls_def)

text \<open>The undelegations: the delegating tracks in the order first met.\<close>

lemma undelegate_calls_eq:
  "undelegate_calls (group_by_track dels vs)
     = map Undelegate (insertion_order (map d_trackId dels))"
proof -
  have "filter (\<lambda>t. t \<in> d_trackId ` set dels)
          (insertion_order (map d_trackId dels @ map v_trackId vs))
        = insertion_order (map d_trackId dels)"
    using insertion_order_append_filter [of "map d_trackId dels" "map v_trackId vs"]
    by simp
  then show ?thesis
    by (simp add: group_by_track_eq undelegate_calls_map)
qed

text \<open>The vote removals: track by track in the order first met, each track's votes in order.\<close>

lemma removeVote_calls_eq:
  "removeVote_calls (group_by_track dels vs)
     = concat (map (\<lambda>t. map (RemoveVote t) (refs_of t vs))
         (insertion_order (map d_trackId dels @ map v_trackId vs)))"
  by (simp add: group_by_track_eq removeVote_calls_map)

lemma concat_map_filter_nonempty:
  assumes "\<And>x. x \<in> set xs \<Longrightarrow> \<not> P x \<Longrightarrow> h x = []"
  shows "concat (map h xs) = concat (map h (filter P xs))"
  using assms by (induction xs) auto

lemma refs_of_empty: "t \<notin> v_trackId ` set vs \<Longrightarrow> refs_of t vs = []"
  unfolding refs_of_def map_is_Nil_conv filter_empty_conv by (metis imageI)

lemma sorted_last_max:
  fixes K :: "int list"
  assumes "sorted_wrt (<) K" and "t \<in> set K" and "\<forall>x\<in>set K. x \<le> t"
  shows "\<exists>K'. K = K' @ [t] \<and> t \<notin> set K'"
proof (cases K rule: rev_cases)
  case Nil
  with assms(2) show ?thesis by simp
next
  case (snoc K' y)
  with assms(1) have below: "\<forall>x\<in>set K'. x < y"
    by (simp add: sorted_wrt_append)
  from snoc assms(3) have "y \<le> t" by simp
  with below have "t \<notin> set K'" by force
  with snoc assms(2) have "t = y" by simp
  with snoc \<open>t \<notin> set K'\<close> show ?thesis by simp
qed

text \<open>Votes listed in ascending track order are already grouped by track.\<close>

lemma grouped_votes_sorted:
  assumes "sorted (map v_trackId vs)"
  shows "concat (map (\<lambda>t. map (RemoveVote t) (refs_of t vs)) (insertion_order (map v_trackId vs)))
           = map (\<lambda>v. RemoveVote (v_trackId v) (v_refIndex v)) vs"
  using assms
proof (induction vs rule: rev_induct)
  case Nil
  show ?case by (simp add: insertion_order_Nil)
next
  case (snoc v vs)
  let ?t = "v_trackId v"
  let ?K = "insertion_order (map v_trackId vs)"
  let ?h = "\<lambda>ws t. map (RemoveVote t) (refs_of t ws)"
  from snoc.prems have sorted: "sorted (map v_trackId vs)"
    and le: "\<forall>x\<in>set (map v_trackId vs). x \<le> ?t"
    by (simp_all add: sorted_append)
  have IH: "concat (map (?h vs) ?K) = map (\<lambda>v. RemoveVote (v_trackId v) (v_refIndex v)) vs"
    by (rule snoc.IH [OF sorted])
  have K': "insertion_order (map v_trackId (vs @ [v])) = set_add ?K ?t"
    by (simp add: insertion_order_snoc)
  have h_other: "?h (vs @ [v]) u = ?h vs u" if "u \<noteq> ?t" for u
    using that by (simp add: refs_of_def)
  have h_same: "?h (vs @ [v]) ?t = ?h vs ?t @ [RemoveVote ?t (v_refIndex v)]"
    by (simp add: refs_of_def)
  show ?case
  proof (cases "?t \<in> set ?K")
    case True
    from sorted have "sorted_wrt (<) ?K"
      by (rule insertion_order_sorted)
    from sorted_last_max [OF this True] le obtain K0 where K: "?K = K0 @ [?t]" and t: "?t \<notin> set K0"
      by (auto simp: set_insertion_order)
    have "map (?h (vs @ [v])) K0 = map (?h vs) K0"
      using t by (intro map_cong refl h_other) auto
    then have c0: "concat (map (?h (vs @ [v])) K0) = concat (map (?h vs) K0)"
      by (rule arg_cong)
    have "concat (map (?h (vs @ [v])) (K0 @ [?t])) = concat (map (?h (vs @ [v])) K0) @ ?h (vs @ [v]) ?t"
      by simp
    also have "\<dots> = concat (map (?h vs) K0) @ ?h vs ?t @ [RemoveVote ?t (v_refIndex v)]"
      by (simp only: c0 h_same)
    also have "\<dots> = concat (map (?h vs) (K0 @ [?t])) @ [RemoveVote ?t (v_refIndex v)]"
      by simp
    finally have "concat (map (?h (vs @ [v])) ?K)
      = concat (map (?h vs) ?K) @ [RemoveVote ?t (v_refIndex v)]"
      by (simp only: K)
    moreover from True have "set_add ?K ?t = ?K"
      by (simp add: set_add_def)
    ultimately show ?thesis
      by (simp only: K' IH) simp
  next
    case False
    then have "?h vs ?t = []"
      by (simp add: refs_of_empty set_insertion_order)
    then have last: "?h (vs @ [v]) ?t = [RemoveVote ?t (v_refIndex v)]"
      by (simp only: h_same append_Nil)
    have "map (?h (vs @ [v])) ?K = map (?h vs) ?K"
      using False by (intro map_cong refl h_other) auto
    then have c0: "concat (map (?h (vs @ [v])) ?K) = concat (map (?h vs) ?K)"
      by (rule arg_cong)
    have "concat (map (?h (vs @ [v])) (?K @ [?t])) = concat (map (?h (vs @ [v])) ?K) @ ?h (vs @ [v]) ?t"
      by simp
    also have "\<dots> = concat (map (?h vs) ?K) @ [RemoveVote ?t (v_refIndex v)]"
      by (simp only: c0 last)
    finally have "concat (map (?h (vs @ [v])) (?K @ [?t]))
      = concat (map (?h vs) ?K) @ [RemoveVote ?t (v_refIndex v)]" .
    moreover from False have "set_add ?K ?t = ?K @ [?t]"
      by (simp add: set_add_def)
    ultimately show ?thesis
      by (simp only: K' IH) simp
  qed
qed

lemma removeVote_calls_sorted:
  assumes disj: "d_trackId ` set dels \<inter> v_trackId ` set vs = {}"
    and sorted: "sorted (map v_trackId vs)"
  shows "removeVote_calls (group_by_track dels vs)
           = map (\<lambda>v. RemoveVote (v_trackId v) (v_refIndex v)) vs"
proof -
  let ?K = "insertion_order (map d_trackId dels @ map v_trackId vs)"
  let ?h = "\<lambda>t. map (RemoveVote t) (refs_of t vs)"
  have "concat (map ?h ?K) = concat (map ?h (filter (\<lambda>t. t \<in> set (map v_trackId vs)) ?K))"
    by (rule concat_map_filter_nonempty) (simp add: refs_of_empty)
  also have "filter (\<lambda>t. t \<in> set (map v_trackId vs)) ?K = insertion_order (map v_trackId vs)"
    using disj by (intro insertion_order_append_filter_disjoint) simp
  also note grouped_votes_sorted [OF sorted]
  finally show ?thesis
    by (simp add: removeVote_calls_eq)
qed

text \<open>The three groups of the plan.\<close>

lemma filter_undelegate_calls:
  "filter is_Undelegate (undelegate_calls td) = undelegate_calls td"
  "filter is_RemoveVote (undelegate_calls td) = []"
  "filter is_Unlock (undelegate_calls td) = []"
  "filter is_Delegate (undelegate_calls td) = []"
  by (induction td) (auto simp: undelegate_calls_def)

lemma filter_removeVote_calls:
  "filter is_Undelegate (removeVote_calls td) = []"
  "filter is_RemoveVote (removeVote_calls td) = removeVote_calls td"
  "filter is_Unlock (removeVote_calls td) = []"
  "filter is_Delegate (removeVote_calls td) = []"
  by (induction td) (auto simp: removeVote_calls_def filter_empty_conv)

lemma filter_unlock_calls:
  "filter is_Undelegate (map (\<lambda>t. Unlock t account) ts) = []"
  "filter is_RemoveVote (map (\<lambda>t. Unlock t account) ts) = []"
  "filter is_Unlock (map (\<lambda>t. Unlock t account) ts) = map (\<lambda>t. Unlock t account) ts"
  "filter is_Delegate (map (\<lambda>t. Unlock t account) ts) = []"
  by (induction ts) auto

lemma plan_groups:
  "filter is_Undelegate (buildCleanupCalls dels vs locks account False)
     = undelegate_calls (group_by_track dels vs)"
  "filter is_RemoveVote (buildCleanupCalls dels vs locks account False)
     = removeVote_calls (group_by_track dels vs)"
  "filter is_Unlock (buildCleanupCalls dels vs locks account unlockOnly)
     = map (\<lambda>t. Unlock t account) (tracksToUnlock locks)"
  "filter is_Delegate (buildCleanupCalls dels vs locks account unlockOnly) = []"
  by (simp_all add: buildCleanupCalls_def Let_def filter_undelegate_calls
      filter_removeVote_calls filter_unlock_calls)

section \<open>What the reader records\<close>

lemma getVotingInfo_snoc:
  "getVotingInfo (es @ [e]) cb cl = read_entry cb (getVotingInfo es cb cl) e"
  by (simp add: getVotingInfo_def)

lemma getVotingInfo_Nil:
  "delegations (getVotingInfo [] cb cl) = []"
  "votes (getVotingInfo [] cb cl) = []"
  "priorLocks (getVotingInfo [] cb cl) = []"
  by (simp_all add: getVotingInfo_def)

lemma read_entry_Delegating:
  "delegations (read_entry cb info (t, Delegating target conviction balance))
     = delegations info @ [\<lparr>d_trackId = t, d_target = target, d_conviction = conviction,
         d_balance = balance\<rparr>]"
  "votes (read_entry cb info (t, Delegating target conviction balance)) = votes info"
  "priorLocks (read_entry cb info (t, Delegating target conviction balance)) = priorLocks info"
  by simp_all

lemma read_entry_Casting:
  "delegations (read_entry cb info (t, Casting refs prior)) = delegations info"
  "votes (read_entry cb info (t, Casting refs prior))
     = votes info @ map (\<lambda>refIndex. \<lparr>v_trackId = t, v_refIndex = refIndex\<rparr>) refs"
  "priorLocks (read_entry cb info (t, Casting refs prior))
     = priorLocks info @
       (case prior of
          None \<Rightarrow> []
        | Some (ub, am) \<Rightarrow>
            if ub > 0 \<and> am \<noteq> 0
            then [\<lparr>l_trackId = t, unlockBlock = ub, amount = am, isExpired = (cb \<ge> ub),
                   blocksRemaining = max 0 (ub - cb)\<rparr>]
            else [])"
  by (simp_all add: Let_def split: option.split prod.split)

declare read_entry.simps [simp del]

text \<open>Every lock the reader records carries the classification of the source.\<close>

lemma priorLocks_classified:
  assumes "l \<in> set (priorLocks (getVotingInfo es cb cl))"
  shows "isExpired l = (unlockBlock l \<le> cb) \<and> blocksRemaining l = max 0 (unlockBlock l - cb)
           \<and> 0 < unlockBlock l \<and> amount l \<noteq> 0 \<and> l_trackId l \<in> fst ` set es"
  using assms
proof (induction es rule: rev_induct)
  case Nil
  then show ?case by (simp add: getVotingInfo_Nil)
next
  case (snoc e es)
  obtain t v where e: "e = (t, v)" by (cases e)
  show ?case
  proof (cases v)
    case (Delegating target conviction balance)
    with snoc e show ?thesis
      by (simp add: getVotingInfo_snoc read_entry_Delegating)
  next
    case (Casting refs prior)
    with snoc.prems e have "l \<in> set (priorLocks (getVotingInfo es cb cl))
      \<or> (\<exists>ub am. prior = Some (ub, am) \<and> 0 < ub \<and> am \<noteq> 0
            \<and> l = \<lparr>l_trackId = t, unlockBlock = ub, amount = am, isExpired = (cb \<ge> ub),
                    blocksRemaining = max 0 (ub - cb)\<rparr>)"
      by (auto simp: getVotingInfo_snoc read_entry_Casting split: option.splits if_splits)
    then show ?thesis
    proof
      assume "l \<in> set (priorLocks (getVotingInfo es cb cl))"
      from snoc.IH [OF this] show ?thesis by simp
    next
      assume "\<exists>ub am. prior = Some (ub, am) \<and> 0 < ub \<and> am \<noteq> 0
            \<and> l = \<lparr>l_trackId = t, unlockBlock = ub, amount = am, isExpired = (cb \<ge> ub),
                    blocksRemaining = max 0 (ub - cb)\<rparr>"
      with e show ?thesis by auto
    qed
  qed
qed

lemma recorded_tracks:
  "d_trackId ` set (delegations (getVotingInfo es cb cl)) \<subseteq> fst ` set es"
  "v_trackId ` set (votes (getVotingInfo es cb cl)) \<subseteq> fst ` set es"
proof (induction es rule: rev_induct)
  case Nil
  case 1 show ?case by (simp add: getVotingInfo_Nil)
  case 2 show ?case by (simp add: getVotingInfo_Nil)
next
  case (snoc e es)
  obtain t v where e: "e = (t, v)" by (cases e)
  case 1
  from snoc(1) e show ?case
    by (cases v) (auto simp: getVotingInfo_snoc read_entry_Delegating read_entry_Casting)
  case 2
  from snoc(2) e show ?case
    by (cases v) (auto simp: getVotingInfo_snoc read_entry_Delegating read_entry_Casting)
qed

lemma track_ref_le_same: "sorted refs \<Longrightarrow> sorted_wrt track_ref_le (map (Pair t) refs)"
  by (induction refs) (auto simp: track_ref_le_def)

text \<open>Entries in ascending order are recorded in ascending order.\<close>

lemma ascending_recorded:
  assumes "entries_ascending es"
  shows "sorted (map d_trackId (delegations (getVotingInfo es cb cl)))
         \<and> sorted_wrt track_ref_le
             (map (\<lambda>v. (v_trackId v, v_refIndex v)) (votes (getVotingInfo es cb cl)))
         \<and> d_trackId ` set (delegations (getVotingInfo es cb cl))
             \<inter> v_trackId ` set (votes (getVotingInfo es cb cl)) = {}
         \<and> sorted (map l_trackId (priorLocks (getVotingInfo es cb cl)))"
  using assms
proof (induction es rule: rev_induct)
  case Nil
  show ?case by (simp add: getVotingInfo_Nil)
next
  case (snoc e es)
  let ?info = "getVotingInfo es cb cl"
  obtain t v where e: "e = (t, v)" by (cases e)
  from snoc.prems e have asc: "entries_ascending es" and below: "\<forall>x\<in>fst ` set es. x < t"
    and ve: "casting_sorted (t, v)"
    by (auto simp: entries_ascending_def sorted_wrt_append)
  from snoc.IH [OF asc] have
    S1: "sorted (map d_trackId (delegations ?info))"
    and S2: "sorted_wrt track_ref_le (map (\<lambda>v. (v_trackId v, v_refIndex v)) (votes ?info))"
    and S3: "d_trackId ` set (delegations ?info) \<inter> v_trackId ` set (votes ?info) = {}"
    and S4: "sorted (map l_trackId (priorLocks ?info))"
    by simp_all
  have dlt: "\<forall>d\<in>set (delegations ?info). d_trackId d < t"
  proof
    fix d
    assume "d \<in> set (delegations ?info)"
    with recorded_tracks(1) [of es cb cl] have "d_trackId d \<in> fst ` set es"
      by blast
    with below show "d_trackId d < t" by blast
  qed
  have vlt: "\<forall>w\<in>set (votes ?info). v_trackId w < t"
  proof
    fix w
    assume "w \<in> set (votes ?info)"
    with recorded_tracks(2) [of es cb cl] have "v_trackId w \<in> fst ` set es"
      by blast
    with below show "v_trackId w < t" by blast
  qed
  from below priorLocks_classified [of _ es cb cl]
  have llt: "\<forall>l\<in>set (priorLocks ?info). l_trackId l < t"
    by blast
  show ?case
  proof (cases v)
    case (Delegating target conviction balance)
    have "t \<notin> v_trackId ` set (votes ?info)"
      using vlt by force
    with S1 S2 S3 S4 dlt show ?thesis
      unfolding e Delegating getVotingInfo_snoc read_entry_Delegating
      by (auto simp: sorted_append less_imp_le)
  next
    case (Casting refs prior)
    from ve Casting have refs: "sorted refs" by simp
    have new: "map (\<lambda>v. (v_trackId v, v_refIndex v))
        (map (\<lambda>refIndex. \<lparr>v_trackId = t, v_refIndex = refIndex\<rparr>) refs) = map (Pair t) refs"
      by simp
    have V: "sorted_wrt track_ref_le (map (\<lambda>v. (v_trackId v, v_refIndex v))
        (votes ?info @ map (\<lambda>refIndex. \<lparr>v_trackId = t, v_refIndex = refIndex\<rparr>) refs))"
      using S2 vlt track_ref_le_same [OF refs, of t]
      unfolding map_append new sorted_wrt_append
      by (auto simp: track_ref_le_def)
    have D: "d_trackId ` set (delegations ?info)
        \<inter> v_trackId ` set (votes ?info @ map (\<lambda>refIndex. \<lparr>v_trackId = t, v_refIndex = refIndex\<rparr>) refs)
        = {}"
      using S3 dlt by force
    have L: "sorted (map l_trackId (priorLocks ?info @
       (case prior of
          None \<Rightarrow> []
        | Some (ub, am) \<Rightarrow>
            if ub > 0 \<and> am \<noteq> 0
            then [\<lparr>l_trackId = t, unlockBlock = ub, amount = am, isExpired = (cb \<ge> ub),
                   blocksRemaining = max 0 (ub - cb)\<rparr>]
            else [])))"
      using S4 llt by (auto simp: sorted_append less_imp_le split: option.splits)
    from S1 V D L show ?thesis
      unfolding e Casting getVotingInfo_snoc read_entry_Casting by simp
  qed
qed

section \<open>Order of the cleanup plan\<close>

lemma buildCleanupCalls_phases:
  "buildCleanupCalls dels vs locks account False
     = undelegate_calls (group_by_track dels vs) @ removeVote_calls (group_by_track dels vs)
       @ map (\<lambda>t. Unlock t account) (tracksToUnlock locks)"
  by (simp add: buildCleanupCalls_def Let_def)

lemma op_track_Undelegate: "map op_track (map Undelegate ts) = ts"
  by (induction ts) simp_all

lemma op_track_Unlock: "map op_track (map (\<lambda>t. Unlock t account) ts) = ts"
  by (induction ts) simp_all

lemma op_track_ref_RemoveVote:
  "map op_track_ref (map (\<lambda>v. RemoveVote (v_trackId v) (v_refIndex v)) vs)
     = map (\<lambda>v. (v_trackId v, v_refIndex v)) vs"
  by (induction vs) simp_all

lemma sorted_track_ref_tracks:
  "sorted_wrt track_ref_le (map (\<lambda>v. (v_trackId v, v_refIndex v)) vs) \<Longrightarrow> sorted (map v_trackId vs)"
  by (induction vs) (auto simp: track_ref_le_def)

text \<open>
  Claim C4, as amended. With \<open>unlockOnly\<close> false the plan lists every \<open>Undelegate\<close> before
  every \<open>RemoveVote\<close> before every \<open>Unlock\<close>. Within a group the operations follow the order
  in which the tracks are first met in the observed state; nothing is sorted. When the
  chain lists the entries in ascending order of track id, each track's votes ascending by
  referendum index, the \<open>Undelegate\<close> group is ascending by track id, the \<open>RemoveVote\<close> group
  ascending by track id and then by referendum index, and the \<open>Unlock\<close> group ascending by
  track id.
\<close>

theorem cleanup_plan_order:
  fixes es cb cl account
  defines "info \<equiv> getVotingInfo es cb cl"
  defines "plan \<equiv> cleanup_plan info account False"
  shows "plan = filter is_Undelegate plan @ filter is_RemoveVote plan @ filter is_Unlock plan
    \<and> map op_track (filter is_Undelegate plan) = insertion_order (map d_trackId (delegations info))
    \<and> map op_track_ref (filter is_RemoveVote plan)
        = concat (map (\<lambda>t. map (Pair t) (refs_of t (votes info)))
            (insertion_order (map d_trackId (delegations info) @ map v_trackId (votes info))))
    \<and> map op_track (filter is_Unlock plan)
        = insertion_order (map l_trackId (filter isExpired (priorLocks info)))
    \<and> (entries_ascending es \<longrightarrow>
          sorted_wrt (<) (map op_track (filter is_Undelegate plan))
        \<and> sorted_wrt track_ref_le (map op_track_ref (filter is_RemoveVote plan))
        \<and> sorted_wrt (<) (map op_track (filter is_Unlock plan)))"
proof -
  let ?dels = "delegations info" and ?vs = "votes info" and ?locks = "priorLocks info"
  have plan: "plan = buildCleanupCalls ?dels ?vs ?locks account False"
    by (simp add: plan_def cleanup_plan_def)
  have U: "filter is_Undelegate plan = map Undelegate (insertion_order (map d_trackId ?dels))"
    unfolding plan by (simp add: plan_groups undelegate_calls_eq)
  have R: "filter is_RemoveVote plan = removeVote_calls (group_by_track ?dels ?vs)"
    unfolding plan by (simp add: plan_groups)
  have L: "filter is_Unlock plan
    = map (\<lambda>t. Unlock t account) (insertion_order (map l_trackId (filter isExpired ?locks)))"
    unfolding plan by (simp add: plan_groups tracksToUnlock_eq)
  have phases: "plan = filter is_Undelegate plan @ filter is_RemoveVote plan @ filter is_Unlock plan"
    unfolding U R L unfolding plan buildCleanupCalls_phases
    by (simp add: undelegate_calls_eq tracksToUnlock_eq)
  have Ut: "map op_track (filter is_Undelegate plan) = insertion_order (map d_trackId ?dels)"
    unfolding U by (rule op_track_Undelegate)
  have Lt: "map op_track (filter is_Unlock plan)
    = insertion_order (map l_trackId (filter isExpired ?locks))"
    unfolding L by (rule op_track_Unlock)
  have Rt: "map op_track_ref (filter is_RemoveVote plan)
    = concat (map (\<lambda>t. map (Pair t) (refs_of t ?vs))
        (insertion_order (map d_trackId ?dels @ map v_trackId ?vs)))"
    unfolding R removeVote_calls_eq by (simp add: map_concat comp_def)
  have asc: "sorted_wrt (<) (map op_track (filter is_Undelegate plan))
        \<and> sorted_wrt track_ref_le (map op_track_ref (filter is_RemoveVote plan))
        \<and> sorted_wrt (<) (map op_track (filter is_Unlock plan))" if "entries_ascending es"
  proof -
    from ascending_recorded [OF that, of cb cl] have
      S1: "sorted (map d_trackId ?dels)"
      and S2: "sorted_wrt track_ref_le (map (\<lambda>v. (v_trackId v, v_refIndex v)) ?vs)"
      and S3: "d_trackId ` set ?dels \<inter> v_trackId ` set ?vs = {}"
      and S4: "sorted (map l_trackId ?locks)"
      unfolding info_def by simp_all
    have "sorted_wrt (<) (map op_track (filter is_Undelegate plan))"
      unfolding Ut using S1 by (rule insertion_order_sorted)
    moreover have "sorted_wrt track_ref_le (map op_track_ref (filter is_RemoveVote plan))"
      unfolding R removeVote_calls_sorted [OF S3 sorted_track_ref_tracks [OF S2]]
        op_track_ref_RemoveVote
      by (rule S2)
    moreover have "sorted (map l_trackId (filter isExpired ?locks))"
      using S4 by (simp add: sorted_wrt_filter sorted_map)
    then have "sorted_wrt (<) (map op_track (filter is_Unlock plan))"
      unfolding Lt by (rule insertion_order_sorted)
    ultimately show ?thesis by simp
  qed
  from phases Ut Rt Lt asc show ?thesis by blast
qed

theorem cleanup_plan_order_witness:
  "entries_ascending
     [(0, Delegating ''T'' ''Locked1x'' 5), (1, Casting [3, 9] (Some (1000, 50))),
      (5, Casting [4] (Some (1300, 50)))]
   \<and> cleanup_plan
         (getVotingInfo
           [(0, Delegating ''T'' ''Locked1x'' 5), (1, Casting [3, 9] (Some (1000, 50))),
            (5, Casting [4] (Some (1300, 50)))] 1200 []) ''A'' False
       = [Undelegate 0, RemoveVote 1 3, RemoveVote 1 9, RemoveVote 5 4, Unlock 1 ''A'']
   \<and> sorted_wrt track_ref_le
         (map op_track_ref (filter is_RemoveVote
           (cleanup_plan
             (getVotingInfo
               [(0, Delegating ''T'' ''Locked1x'' 5), (1, Casting [3, 9] (Some (1000, 50))),
                (5, Casting [4] (Some (1300, 50)))] 1200 []) ''A'' False)))"
proof -
  let ?es = "[(0, Delegating ''T'' ''Locked1x'' 5), (1, Casting [3, 9] (Some (1000, 50))),
      (5, Casting [4] (Some (1300, 50)))]"
  have asc: "entries_ascending ?es"
    by (simp add: entries_ascending_def)
  have plan: "cleanup_plan (getVotingInfo ?es 1200 []) ''A'' False
    = [Undelegate 0, RemoveVote 1 3, RemoveVote 1 9, RemoveVote 5 4, Unlock 1 ''A'']"
    by code_simp
  from cleanup_plan_order [of ?es 1200 "[]" "''A''"] asc plan show ?thesis
    by blast
qed

theorem cleanup_plan_order_counterexample:
  "cleanup_plan
      (getVotingInfo
        [(2, Delegating ''T'' ''Locked1x'' 5), (0, Delegating ''T'' ''Locked1x'' 5)] 1200 [])
      ''A'' False
    = [Undelegate 2, Undelegate 0]
   \<and> \<not> sorted (map op_track (filter is_Undelegate
       (cleanup_plan
         (getVotingInfo
           [(2, Delegating ''T'' ''Locked1x'' 5), (0, Delegating ''T'' ''Locked1x'' 5)] 1200 [])
         ''A'' False)))"
  by code_simp

section \<open>Unlocks\<close>

lemma distinct_count:
  "distinct xs \<Longrightarrow> length (filter (\<lambda>x. x = t) xs) = (if t \<in> set xs then 1 else 0)"
  by (induction xs) auto

lemma filter_unlock_track:
  "filter (\<lambda>c. is_Unlock c \<and> op_track c = t) calls
     = filter (\<lambda>c. op_track c = t) (filter is_Unlock calls)"
  by (induction calls) auto

lemma set_tracksToUnlock:
  "set (tracksToUnlock locks) = l_trackId ` {l \<in> set locks. isExpired l}"
  by (simp add: tracksToUnlock_eq set_insertion_order)

lemma Unlock_in_plan:
  "Unlock t a \<in> set (buildCleanupCalls dels vs locks account unlockOnly)
     \<longleftrightarrow> a = account \<and> t \<in> set (tracksToUnlock locks)"
proof -
  have "Unlock t a \<in> set (buildCleanupCalls dels vs locks account unlockOnly)
    \<longleftrightarrow> Unlock t a \<in> set (filter is_Unlock (buildCleanupCalls dels vs locks account unlockOnly))"
    by simp
  also have "\<dots> \<longleftrightarrow> a = account \<and> t \<in> set (tracksToUnlock locks)"
    unfolding plan_groups by auto
  finally show ?thesis .
qed

text \<open>
  Claim C6. A lock the reader records is \<open>Expired\<close> exactly when \<open>currentBlock \<ge> unlockBlock\<close>
  (so also when the two are equal); otherwise it is pending and \<open>blocksRemaining\<close> is
  \<open>unlockBlock - currentBlock\<close>. For every list of delegations, votes and locks and either
  value of \<open>unlockOnly\<close>, the plan holds an \<open>Unlock\<close> for a track only if one of the locks
  of that track is expired, and then exactly one, however many locks name the track.
\<close>

theorem unlock_only_expired:
  "(\<forall>l\<in>set (priorLocks (getVotingInfo es cb cl)).
       (isExpired l \<longleftrightarrow> cb \<ge> unlockBlock l)
     \<and> (\<not> isExpired l \<longrightarrow> blocksRemaining l = unlockBlock l - cb))
   \<and> (\<forall>t a. Unlock t a \<in> set (buildCleanupCalls dels vs locks account unlockOnly)
         \<longrightarrow> (\<exists>l\<in>set locks. l_trackId l = t \<and> isExpired l))
   \<and> (\<forall>t. length (filter (\<lambda>c. is_Unlock c \<and> op_track c = t)
                 (buildCleanupCalls dels vs locks account unlockOnly))
           = (if \<exists>l\<in>set locks. l_trackId l = t \<and> isExpired l then 1 else 0))"
proof (intro conjI ballI allI impI)
  fix l
  assume l: "l \<in> set (priorLocks (getVotingInfo es cb cl))"
  from priorLocks_classified [OF l] show "isExpired l \<longleftrightarrow> cb \<ge> unlockBlock l"
    by simp
  assume "\<not> isExpired l"
  with priorLocks_classified [OF l] show "blocksRemaining l = unlockBlock l - cb"
    by simp
next
  fix t a
  assume "Unlock t a \<in> set (buildCleanupCalls dels vs locks account unlockOnly)"
  then have "t \<in> set (tracksToUnlock locks)"
    by (simp add: Unlock_in_plan)
  then show "\<exists>l\<in>set locks. l_trackId l = t \<and> isExpired l"
    by (auto simp: set_tracksToUnlock)
next
  fix t
  have "filter (\<lambda>c. is_Unlock c \<and> op_track c = t)
      (buildCleanupCalls dels vs locks account unlockOnly)
    = map (\<lambda>t. Unlock t account) (filter (\<lambda>x. x = t) (tracksToUnlock locks))"
    unfolding filter_unlock_track plan_groups by (simp add: filter_map comp_def)
  then have "length (filter (\<lambda>c. is_Unlock c \<and> op_track c = t)
      (buildCleanupCalls dels vs locks account unlockOnly))
    = (if t \<in> set (tracksToUnlock locks) then 1 else 0)"
    by (simp add: distinct_count tracksToUnlock_eq distinct_insertion_order)
  also have "t \<in> set (tracksToUnlock locks) \<longleftrightarrow> (\<exists>l\<in>set locks. l_trackId l = t \<and> isExpired l)"
    by (auto simp: set_tracksToUnlock)
  finally show "length (filter (\<lambda>c. is_Unlock c \<and> op_track c = t)
      (buildCleanupCalls dels vs locks account unlockOnly))
    = (if \<exists>l\<in>set locks. l_trackId l = t \<and> isExpired l then 1 else 0)" .
qed

theorem unlock_only_expired_witness:
  "priorLocks
      (getVotingInfo
        [(0, Casting [] (Some (1200, 5000000000000))), (1, Casting [7] (Some (1300, 50)))] 1200 [])
    = [\<lparr>l_trackId = 0, unlockBlock = 1200, amount = 5000000000000, isExpired = True,
         blocksRemaining = 0\<rparr>,
       \<lparr>l_trackId = 1, unlockBlock = 1300, amount = 50, isExpired = False,
         blocksRemaining = 100\<rparr>]
   \<and> buildCleanupCalls [] []
        [\<lparr>l_trackId = 0, unlockBlock = 1200, amount = 5000000000000, isExpired = True,
           blocksRemaining = 0\<rparr>,
         \<lparr>l_trackId = 1, unlockBlock = 1300, amount = 50, isExpired = False,
           blocksRemaining = 100\<rparr>,
         \<lparr>l_trackId = 0, unlockBlock = 900, amount = 3, isExpired = True,
           blocksRemaining = 0\<rparr>] ''A'' False
       = [Unlock 0 ''A'']
   \<and> length (filter (\<lambda>c. is_Unlock c \<and> op_track c = 0)
        (buildCleanupCalls [] []
          [\<lparr>l_trackId = 0, unlockBlock = 1200, amount = 5000000000000, isExpired = True,
             blocksRemaining = 0\<rparr>,
           \<lparr>l_trackId = 1, unlockBlock = 1300, amount = 50, isExpired = False,
             blocksRemaining = 100\<rparr>,
           \<lparr>l_trackId = 0, unlockBlock = 900, amount = 3, isExpired = True,
             blocksRemaining = 0\<rparr>] ''A'' False)) = 1"
proof -
  let ?es = "[(0, Casting [] (Some (1200, 5000000000000))), (1, Casting [7] (Some (1300, 50)))]"
  let ?locks = "[\<lparr>l_trackId = 0, unlockBlock = 1200, amount = 5000000000000, isExpired = True,
           blocksRemaining = 0\<rparr>,
         \<lparr>l_trackId = 1, unlockBlock = 1300, amount = 50, isExpired = False,
           blocksRemaining = 100\<rparr>,
         \<lparr>l_trackId = 0, unlockBlock = 900, amount = 3, isExpired = True,
           blocksRemaining = 0\<rparr>]"
  have read: "priorLocks (getVotingInfo ?es 1200 [])
    = [\<lparr>l_trackId = 0, unlockBlock = 1200, amount = 5000000000000, isExpired = True,
         blocksRemaining = 0\<rparr>,
       \<lparr>l_trackId = 1, unlockBlock = 1300, amount = 50, isExpired = False,
         blocksRemaining = 100\<rparr>]"
    by (simp add: getVotingInfo_def read_entry.simps)
  have plan: "buildCleanupCalls [] [] ?locks ''A'' False = [Unlock 0 ''A'']"
    by (simp add: buildCleanupCalls_def group_by_track_def undelegate_calls_def
        removeVote_calls_def tracksToUnlock_def set_add_def)
  have "\<exists>l\<in>set ?locks. l_trackId l = 0 \<and> isExpired l"
    by simp
  with unlock_only_expired [of ?es 1200 "[]" "[]" "[]" ?locks "''A''" False]
  have "length (filter (\<lambda>c. is_Unlock c \<and> op_track c = 0)
      (buildCleanupCalls [] [] ?locks ''A'' False)) = 1"
    by presburger
  with read plan show ?thesis
    by blast
qed

section \<open>Unlock-only plans\<close>

text \<open>
  Claim C8. With \<open>unlockOnly\<close> true the plan holds no \<open>Undelegate\<close> and no \<open>RemoveVote\<close>:
  every operation in it is an \<open>Unlock\<close>, whatever was observed.
\<close>

theorem unlockOnly_plan:
  "filter is_Undelegate (buildCleanupCalls dels vs locks account True) = []
   \<and> filter is_RemoveVote (buildCleanupCalls dels vs locks account True) = []
   \<and> (\<forall>c\<in>set (buildCleanupCalls dels vs locks account True). is_Unlock c)
   \<and> (\<forall>c\<in>set (cleanup_plan (getVotingInfo es cb cl) account True). is_Unlock c)"
  by (auto simp: buildCleanupCalls_def cleanup_plan_def)

theorem unlockOnly_plan_witness:
  "cleanup_plan
      (getVotingInfo
        [(0, Delegating ''T'' ''Locked1x'' 5), (1, Casting [3, 9] (Some (1000, 50))),
         (5, Casting [4] (Some (1300, 50)))] 1200 []) ''A'' True
    = [Unlock 1 ''A'']
   \<and> list_all is_Unlock
        (cleanup_plan
          (getVotingInfo
            [(0, Delegating ''T'' ''Locked1x'' 5), (1, Casting [3, 9] (Some (1000, 50))),
             (5, Casting [4] (Some (1300, 50)))] 1200 []) ''A'' True)"
proof -
  let ?es = "[(0, Delegating ''T'' ''Locked1x'' 5), (1, Casting [3, 9] (Some (1000, 50))),
         (5, Casting [4] (Some (1300, 50)))]"
  have "cleanup_plan (getVotingInfo ?es 1200 []) ''A'' True = [Unlock 1 ''A'']"
    by code_simp
  moreover from unlockOnly_plan [of "[]" "[]" "[]" "''A''" ?es 1200 "[]"]
  have "list_all is_Unlock (cleanup_plan (getVotingInfo ?es 1200 []) ''A'' True)"
    unfolding list_all_iff by blast
  ultimately show ?thesis
    by blast
qed

section \<open>The monitor of the delegation script\<close>

lemma settle_simps:
  "result (settle r st) = (if result st = None then Some r else result st)"
  "timer_armed (settle r st) = timer_armed st"
  "logged (settle r st) = logged st"
  by (simp_all add: settle_def)

lemma clearTimeout_simps:
  "result (clearTimeout st) = result st"
  "timer_armed (clearTimeout st) = False"
  by (simp_all add: clearTimeout_def)

lemma console_log_simps:
  "result (console_log e st) = result st"
  "timer_armed (console_log e st) = timer_armed st"
  by (simp_all add: console_log_def)

lemma log_event_keeps:
  "result (log_event reg st ev) = result st"
  "timer_armed (log_event reg st ev) = timer_armed st"
  by (simp_all add: log_event_def Let_def console_log_simps)

lemma log_events_keep:
  "result (foldl (log_event reg) st evs) = result st"
  "timer_armed (foldl (log_event reg) st evs) = timer_armed st"
  by (induction evs arbitrary: st) (simp_all add: log_event_keeps)

lemmas monitor_simps =
  settle_simps clearTimeout_simps console_log_simps log_events_keep

text \<open>What a delivery does to a pending promise does not depend on the rest of the state.\<close>

lemma deliver_pending:
  "result st = None \<Longrightarrow> result (deliver reg h st) = result (deliver reg h monitor_init)"
  by (cases h)
    (simp_all add: deliver_def delegate_callback_def monitor_init_def monitor_simps Let_def
      split: option.split)

lemma deliver_settled:
  "result st = Some r \<Longrightarrow> result (deliver reg h st) = Some r"
  by (cases h)
    (simp_all add: deliver_def delegate_callback_def monitor_simps Let_def split: option.split)

lemma deliver_terminal:
  "result (deliver reg h monitor_init) = None \<longleftrightarrow> \<not> terminal h"
  by (cases h)
    (auto simp: terminal_def deliver_def delegate_callback_def monitor_init_def monitor_simps
      Let_def split: option.split)

lemma deliver_timer:
  "timer_armed (deliver reg h st) = (timer_armed st \<and> \<not> terminal h)"
  by (cases h)
    (auto simp: terminal_def deliver_def delegate_callback_def monitor_simps Let_def
      split: option.split)

lemma deliver_not_TimedOut:
  "result (deliver reg h monitor_init) \<noteq> Some TimedOut"
  by (cases h)
    (simp_all add: deliver_def delegate_callback_def monitor_init_def monitor_simps Let_def
      split: option.split)

lemma timeout_fires_pending:
  "result st = None \<Longrightarrow> result (timeout_fires st) = Some TimedOut"
  by (simp add: timeout_fires_def settle_def)

text \<open>Once settled, with the timer cleared, the rest of the trace changes nothing.\<close>

lemma run_settled:
  "result st = Some r \<Longrightarrow> \<not> timer_armed st \<Longrightarrow> result (run_monitor reg tr st) = Some r"
proof (induction tr arbitrary: st)
  case Nil
  then show ?case by simp
next
  case (Cons th tr)
  obtain t h where th: "th = (t, h)" by (cases th)
  from Cons.prems have "result (deliver reg h st) = Some r" "\<not> timer_armed (deliver reg h st)"
    by (simp_all add: deliver_settled deliver_timer)
  from Cons.IH [OF this] Cons.prems show ?case
    by (simp add: th)
qed

text \<open>Happenings before the deadline that are not terminal leave the submission pending.\<close>

lemma run_skip:
  assumes "result st = None" and "timer_armed st"
    and "\<forall>(t, h)\<in>set pre. t < TIMEOUT_MS \<and> \<not> terminal h"
  shows "\<exists>st'. result st' = None \<and> timer_armed st'
           \<and> run_monitor reg (pre @ rest) st = run_monitor reg rest st'"
  using assms
proof (induction pre arbitrary: st)
  case Nil
  then show ?case by auto
next
  case (Cons th pre)
  obtain t h where th: "th = (t, h)" by (cases th)
  from Cons.prems th have t: "t < TIMEOUT_MS" and h: "\<not> terminal h"
    and pre: "\<forall>(t, h)\<in>set pre. t < TIMEOUT_MS \<and> \<not> terminal h"
    by auto
  from h have "result (deliver reg h monitor_init) = None"
    by (simp add: deliver_terminal)
  with Cons.prems(1) have r: "result (deliver reg h st) = None"
    by (simp add: deliver_pending)
  from Cons.prems(2) h have a: "timer_armed (deliver reg h st)"
    by (simp add: deliver_timer)
  from Cons.IH [OF r a pre] t show ?case
    by (simp add: th)
qed

lemma run_terminal:
  assumes "result st = None" and "t < TIMEOUT_MS" and "terminal h"
  shows "result (run_monitor reg ((t, h) # post) st) = result (deliver reg h monitor_init)"
proof -
  from assms(3) have "result (deliver reg h monitor_init) \<noteq> None"
    by (simp add: deliver_terminal)
  then obtain r where r: "result (deliver reg h monitor_init) = Some r"
    by auto
  with assms(1) have "result (deliver reg h st) = Some r"
    by (simp add: deliver_pending)
  moreover from assms(3) have "\<not> timer_armed (deliver reg h st)"
    by (simp add: deliver_timer)
  ultimately have "result (run_monitor reg post (deliver reg h st)) = Some r"
    by (rule run_settled)
  with assms(2) r show ?thesis
    by simp
qed

lemma run_deadline:
  assumes "result st = None" and "timer_armed st" and "TIMEOUT_MS \<le> t"
  shows "result (run_monitor reg ((t, h) # post) st) = Some TimedOut"
  using assms by (simp add: timeout_fires_pending)

lemma run_end:
  assumes "result st = None" and "timer_armed st"
  shows "result (run_monitor reg [] st) = Some TimedOut"
  using assms by (simp add: timeout_fires_pending)

text \<open>
  The three ways a submission goes: no terminal happening before the deadline, or a first
  terminal happening before it.
\<close>

lemma submission_cases:
  obtains (timeout) "delegate_submission reg tr = Some TimedOut"
      "\<forall>(t, h)\<in>set (takeWhile (\<lambda>(t, h). t < TIMEOUT_MS) tr). \<not> terminal h"
  | (settled) pre t h post where "tr = pre @ (t, h) # post"
      "\<forall>(t, h)\<in>set pre. t < TIMEOUT_MS \<and> \<not> terminal h" "t < TIMEOUT_MS" "terminal h"
      "delegate_submission reg tr = result (deliver reg h monitor_init)"
proof -
  let ?P = "\<lambda>(t, h). t < TIMEOUT_MS \<and> \<not> terminal h"
  let ?pre = "takeWhile ?P tr" and ?rest = "dropWhile ?P tr"
  have split: "tr = ?pre @ ?rest" by simp
  have pre: "\<forall>(t, h)\<in>set ?pre. t < TIMEOUT_MS \<and> \<not> terminal h"
    by (auto dest: set_takeWhileD)
  have init: "result monitor_init = None" "timer_armed monitor_init"
    by (simp_all add: monitor_init_def)
  from run_skip [OF init pre, of reg ?rest] obtain st' where
    st': "result st' = None" "timer_armed st'"
    and run: "run_monitor reg tr monitor_init = run_monitor reg ?rest st'"
    by auto
  show thesis
  proof (cases ?rest)
    case Nil
    then have all: "?pre = tr" by (metis append_Nil2 split)
    from run have "run_monitor reg tr monitor_init = run_monitor reg [] st'"
      by (simp only: Nil)
    with st' have "delegate_submission reg tr = Some TimedOut"
      by (simp add: delegate_submission_def timeout_fires_pending)
    moreover have "\<forall>(t, h)\<in>set (takeWhile (\<lambda>(t, h). t < TIMEOUT_MS) tr). \<not> terminal h"
      using pre all by (auto dest!: set_takeWhileD)
    ultimately show thesis by (rule timeout)
  next
    case (Cons th post)
    obtain t h where th: "th = (t, h)" by (cases th)
    from Cons th have notP: "\<not> (t < TIMEOUT_MS \<and> \<not> terminal h)"
      using hd_dropWhile [of ?P tr] by (metis (mono_tags, lifting) case_prod_conv list.sel(1) list.simps(3))
    show thesis
    proof (cases "t < TIMEOUT_MS")
      case True
      with notP have hterm: "terminal h" by simp
      from run Cons th run_terminal [OF st'(1) True hterm, of reg post]
      have "delegate_submission reg tr = result (deliver reg h monitor_init)"
        by (simp add: delegate_submission_def)
      with split Cons th pre True hterm show thesis
        by (intro settled [of ?pre t h post]) simp_all
    next
      case False
      with run Cons th st' have "delegate_submission reg tr = Some TimedOut"
        by (simp add: delegate_submission_def timeout_fires_pending)
      moreover have "takeWhile (\<lambda>(t, h). t < TIMEOUT_MS) tr = ?pre"
      proof -
        have "takeWhile (\<lambda>(t, h). t < TIMEOUT_MS) (?pre @ (t, h) # post) = ?pre"
          using False pre by (subst takeWhile_append2) auto
        with split Cons th show ?thesis by simp
      qed
      ultimately show thesis
        using pre by (intro timeout) auto
    qed
  qed
qed

lemma sorted_before:
  assumes "sorted (map fst (pre @ (t, h) # post))"
  shows "\<forall>(t', h')\<in>set pre. t' \<le> t"
  using assms by (auto simp: sorted_append)

text \<open>The first terminal happening of a chronological trace, if before the deadline, decides.\<close>

lemma first_terminal_decides:
  assumes tr: "tr = pre @ (t, h) # post" and sorted: "sorted (map fst tr)"
    and t: "t < TIMEOUT_MS" and h: "terminal h"
    and pre: "\<forall>(t', h')\<in>set pre. \<not> terminal h'"
  shows "delegate_submission reg tr = result (deliver reg h monitor_init)"
proof -
  from sorted_before [OF sorted [unfolded tr]] t pre
  have pre': "\<forall>(t', h')\<in>set pre. t' < TIMEOUT_MS \<and> \<not> terminal h'"
    by fastforce
  have init: "result monitor_init = None" "timer_armed monitor_init"
    by (simp_all add: monitor_init_def)
  from run_skip [OF init pre', of reg "(t, h) # post"] obtain st' where
    st': "result st' = None"
    and run: "run_monitor reg tr monitor_init = run_monitor reg ((t, h) # post) st'"
    unfolding tr by auto
  from run run_terminal [OF st' t h, of reg post] show ?thesis
    by (simp add: delegate_submission_def)
qed


lemma deliver_Finalized:
  "dispatchError n = None \<Longrightarrow> status n = Finalized \<Longrightarrow>
     result (deliver reg (Notify n) monitor_init) = Some ResolvedFinalized"
  by (simp add: deliver_def delegate_callback_def monitor_init_def monitor_simps)

lemma takeWhile_sorted_before:
  fixes tr :: "(nat \<times> 'a) list"
  assumes "sorted (map fst tr)"
  shows "set (takeWhile (\<lambda>(t, h). t < T) tr) = {(t, h) \<in> set tr. t < T}"
  using assms
proof (induction tr)
  case Nil
  show ?case by simp
next
  case (Cons th tr)
  obtain t h where th: "th = (t, h)" by (cases th)
  from Cons.prems th have later: "\<forall>(t', h')\<in>set tr. t \<le> t'" and sorted: "sorted (map fst tr)"
    by auto
  show ?case
  proof (cases "t < T")
    case True
    with Cons.IH [OF sorted] th show ?thesis by auto
  next
    case False
    with later have "\<forall>(t', h')\<in>set tr. \<not> t' < T" by fastforce
    with False th show ?thesis by auto
  qed
qed

section \<open>The monitor of the cleanup script\<close>

lemma cleanup_callback_settled:
  "result st = Some r \<Longrightarrow> result (cleanup_callback reg st n) = Some r"
  by (simp add: cleanup_callback_def monitor_simps Let_def split: option.split)

lemma cleanup_callback_other:
  "status n \<noteq> Finalized \<Longrightarrow> result (cleanup_callback reg st n) = result st"
  by (simp add: cleanup_callback_def monitor_simps Let_def)

lemma cleanup_callback_Finalized:
  "status n = Finalized \<Longrightarrow> result st = None \<Longrightarrow>
     result (cleanup_callback reg st n)
       = Some (case dispatchError n of
                 Some e \<Rightarrow> DispatchFailed (error_message reg e)
               | None \<Rightarrow> ResolvedFinalized)"
  by (simp add: cleanup_callback_def monitor_simps Let_def split: option.split)

lemma cleanup_fold_settled:
  "result st = Some r \<Longrightarrow> result (foldl (cleanup_callback reg) st ns) = Some r"
  by (induction ns arbitrary: st) (simp_all add: cleanup_callback_settled)

lemma cleanup_fold_other:
  "\<forall>n\<in>set ns. status n \<noteq> Finalized \<Longrightarrow>
     result (foldl (cleanup_callback reg) st ns) = result st"
  by (induction ns arbitrary: st) (simp_all add: cleanup_callback_other)

lemma cleanup_pending:
  "\<forall>n\<in>set ns. status n \<noteq> Finalized \<Longrightarrow> cleanup_submission reg ns = None"
  by (simp add: cleanup_submission_def cleanup_fold_other cleanup_init_def)

lemma cleanup_first_Finalized:
  assumes "\<forall>m\<in>set pre. status m \<noteq> Finalized" and "status n = Finalized"
  shows "cleanup_submission reg (pre @ n # post)
           = Some (case dispatchError n of
                     Some e \<Rightarrow> DispatchFailed (error_message reg e)
                   | None \<Rightarrow> ResolvedFinalized)"
proof -
  let ?st = "foldl (cleanup_callback reg) cleanup_init pre"
  from assms(1) have "result ?st = None"
    by (simp add: cleanup_fold_other cleanup_init_def)
  with assms(2) have "result (cleanup_callback reg ?st n)
    = Some (case dispatchError n of
              Some e \<Rightarrow> DispatchFailed (error_message reg e)
            | None \<Rightarrow> ResolvedFinalized)"
    by (rule cleanup_callback_Finalized)
  then show ?thesis
    by (simp add: cleanup_submission_def cleanup_fold_settled)
qed

lemma cleanup_not_TimedOut: "cleanup_submission reg ns \<noteq> Some TimedOut"
proof (cases "\<forall>n\<in>set ns. status n \<noteq> Finalized")
  case True
  then show ?thesis by (simp add: cleanup_pending)
next
  case False
  then obtain pre n post where "ns = pre @ n # post" "\<forall>m\<in>set pre. status m \<noteq> Finalized"
    "status n = Finalized"
    using split_list_first_prop [of ns "\<lambda>n. status n = Finalized"] by auto
  then show ?thesis
    by (simp add: cleanup_first_Finalized split: option.split)
qed

section \<open>Failed extrinsics\<close>







section \<open>The deadline\<close>

text \<open>
  Claim C2, as amended. In the delegation script every submission starts a timer of
  120000 milliseconds (120 seconds) and every submission settles. The timer is cleared by
  every terminal happening, and by no other. For a chronological trace the submission
  resolves \<open>TimedOut\<close> if and only if no terminal happening arrives strictly before the
  deadline; a \<open>Finalized\<close> notification without dispatch error that arrives strictly before
  the deadline, no terminal happening before it, resolves the submission to \<open>Finalized\<close>.
  The cleanup script sets no timer: its submission never resolves \<open>TimedOut\<close>, and stays
  pending for ever unless a \<open>Finalized\<close> notification arrives.
\<close>

theorem deadline_timer:
  "TIMEOUT_MS = 120 * 1000
   \<and> timer_armed monitor_init
   \<and> (\<exists>r. delegate_submission reg tr = Some r)
   \<and> (\<forall>h st. timer_armed (deliver reg h st) = (timer_armed st \<and> \<not> terminal h))
   \<and> (sorted (map fst tr) \<longrightarrow>
        (delegate_submission reg tr = Some TimedOut
           \<longleftrightarrow> \<not> (\<exists>(t, h)\<in>set tr. t < TIMEOUT_MS \<and> terminal h)))
   \<and> (\<forall>pre t n post.
         tr = pre @ (t, Notify n) # post \<and> sorted (map fst tr) \<and> t < TIMEOUT_MS
         \<and> status n = Finalized \<and> dispatchError n = None
         \<and> (\<forall>(t', h)\<in>set pre. \<not> terminal h)
         \<longrightarrow> delegate_submission reg tr = Some ResolvedFinalized)
   \<and> cleanup_submission reg ns \<noteq> Some TimedOut
   \<and> ((\<forall>n\<in>set ns. status n \<noteq> Finalized) \<longrightarrow> cleanup_submission reg ns = None)"
proof (intro conjI allI impI)
  show "TIMEOUT_MS = 120 * 1000"
    by (simp add: TIMEOUT_MS_def)
  show "timer_armed monitor_init"
    by (simp add: monitor_init_def)
  show "\<exists>r. delegate_submission reg tr = Some r"
  proof (cases rule: submission_cases [of reg tr])
    case timeout
    then show ?thesis by simp
  next
    case (settled pre t h post)
    from settled(4) have "result (deliver reg h monitor_init) \<noteq> None"
      by (simp add: deliver_terminal)
    with settled(5) show ?thesis by auto
  qed
  show "timer_armed (deliver reg h st) = (timer_armed st \<and> \<not> terminal h)" for h st
    by (rule deliver_timer)
  show "cleanup_submission reg ns \<noteq> Some TimedOut"
    by (rule cleanup_not_TimedOut)
  show "cleanup_submission reg ns = None" if "\<forall>n\<in>set ns. status n \<noteq> Finalized"
    using that by (rule cleanup_pending)
next
  assume sorted: "sorted (map fst tr)"
  show "delegate_submission reg tr = Some TimedOut
    \<longleftrightarrow> \<not> (\<exists>(t, h)\<in>set tr. t < TIMEOUT_MS \<and> terminal h)"
  proof (cases rule: submission_cases [of reg tr])
    case timeout
    from timeout(2) takeWhile_sorted_before [OF sorted, of TIMEOUT_MS]
    have "\<not> (\<exists>(t, h)\<in>set tr. t < TIMEOUT_MS \<and> terminal h)"
      by blast
    with timeout(1) show ?thesis by simp
  next
    case (settled pre t h post)
    then have "\<exists>(t, h)\<in>set tr. t < TIMEOUT_MS \<and> terminal h"
      by auto
    moreover from settled have "delegate_submission reg tr \<noteq> Some TimedOut"
      by (simp add: deliver_not_TimedOut)
    ultimately show ?thesis by simp
  qed
next
  fix pre post :: "(nat \<times> happening) list" and t and n :: notification
  assume a: "tr = pre @ (t, Notify n) # post \<and> sorted (map fst tr) \<and> t < TIMEOUT_MS
         \<and> status n = Finalized \<and> dispatchError n = None
         \<and> (\<forall>(t', h)\<in>set pre. \<not> terminal h)"
  then have "terminal (Notify n)"
    by (simp add: terminal_def)
  moreover from a have "tr = pre @ (t, Notify n) # post" "sorted (map fst tr)" "t < TIMEOUT_MS"
    "\<forall>(t', h)\<in>set pre. \<not> terminal h"
    by blast+
  ultimately have "delegate_submission reg tr = result (deliver reg (Notify n) monitor_init)"
    by (intro first_terminal_decides [of tr pre t "Notify n" post])
  with a show "delegate_submission reg tr = Some ResolvedFinalized"
    by (simp add: deliver_Finalized)
qed

theorem deadline_timer_witness:
  "delegate_submission
      (\<lambda>i k. \<lparr>me_section = ''convictionVoting'', me_name = ''AlreadyDelegating'',
               me_docs = [''The account'', ''is already delegating.'']\<rparr>)
      [(6000, Notify \<lparr>status = InBlock, events = [], dispatchError = None\<rparr>),
       (119999, Notify \<lparr>status = Finalized, events = [], dispatchError = None\<rparr>)]
    = Some ResolvedFinalized
   \<and> delegate_submission
      (\<lambda>i k. \<lparr>me_section = ''convictionVoting'', me_name = ''AlreadyDelegating'',
               me_docs = [''The account'', ''is already delegating.'']\<rparr>)
      [(6000, Notify \<lparr>status = InBlock, events = [], dispatchError = None\<rparr>),
       (120000, Notify \<lparr>status = Finalized, events = [], dispatchError = None\<rparr>)]
    = Some TimedOut"
proof -
  let ?reg = "\<lambda>i k :: nat. \<lparr>me_section = ''convictionVoting'', me_name = ''AlreadyDelegating'',
               me_docs = [''The account'', ''is already delegating.'']\<rparr>"
  let ?inblock = "\<lparr>status = InBlock, events = [], dispatchError = None\<rparr>"
  let ?fin = "\<lparr>status = Finalized, events = [], dispatchError = None\<rparr>"
  let ?tr1 = "[(6000 :: nat, Notify ?inblock), (119999, Notify ?fin)]"
  let ?tr2 = "[(6000 :: nat, Notify ?inblock), (120000, Notify ?fin)]"
  have pre: "?tr1 = [(6000, Notify ?inblock)] @ (119999, Notify ?fin) # []
      \<and> sorted (map fst ?tr1) \<and> 119999 < TIMEOUT_MS
      \<and> status ?fin = Finalized \<and> dispatchError ?fin = None
      \<and> (\<forall>(t', h)\<in>set [(6000 :: nat, Notify ?inblock)]. \<not> terminal h)"
    by (simp add: TIMEOUT_MS_def terminal_def)
  have one: "delegate_submission ?reg ?tr1 = Some ResolvedFinalized"
    by (rule deadline_timer [of ?reg ?tr1 "[]", THEN conjunct2, THEN conjunct2, THEN conjunct2,
          THEN conjunct2, THEN conjunct2, THEN conjunct1, rule_format, OF pre])
  have sorted: "sorted (map fst ?tr2)"
    by simp
  have none: "\<not> (\<exists>(t, h)\<in>set ?tr2. t < TIMEOUT_MS \<and> terminal h)"
    by (simp add: TIMEOUT_MS_def terminal_def)
  from deadline_timer [of ?reg ?tr2 "[]"] sorted none
  have two: "delegate_submission ?reg ?tr2 = Some TimedOut"
    by blast
  from one two show ?thesis
    by (rule conjI)
qed

theorem deadline_timer_counterexample:
  "\<not> (\<exists>n\<in>set [\<lparr>status = InBlock, events = [], dispatchError = None\<rparr>]. terminal (Notify n))
   \<and> cleanup_submission
        (\<lambda>i k. \<lparr>me_section = ''convictionVoting'', me_name = ''AlreadyDelegating'',
                 me_docs = [''The account'', ''is already delegating.'']\<rparr>)
        [\<lparr>status = InBlock, events = [], dispatchError = None\<rparr>] = None"
  by (simp add: terminal_def cleanup_submission_def cleanup_callback_def cleanup_init_def
      monitor_simps)

section \<open>Rounding to a double\<close>

lemma floor_log2_bounds:
  "1 \<le> x \<Longrightarrow> 2 ^ floor_log2 x \<le> x \<and> x < 2 ^ Suc (floor_log2 x)"
proof (induction x rule: floor_log2.induct)
  case (1 x)
  show ?case
  proof (cases "x < 2")
    case True
    with "1.prems" show ?thesis by simp
  next
    case False
    then have "1 \<le> x / 2" by simp
    from "1.IH" [OF False this] have "2 ^ floor_log2 (x / 2) \<le> x / 2"
      and "x / 2 < 2 ^ Suc (floor_log2 (x / 2))"
      by simp_all
    then have "2 * 2 ^ floor_log2 (x / 2) \<le> x" and "x < 2 * 2 ^ Suc (floor_log2 (x / 2))"
      by simp_all
    moreover from False have "floor_log2 x = Suc (floor_log2 (x / 2))"
      by (subst floor_log2.simps) simp
    ultimately show ?thesis by simp
  qed
qed

declare floor_log2.simps [simp del] neg_log2.simps [simp del]

lemma floor_log2_unique:
  assumes "2 ^ e \<le> x" and "x < 2 ^ Suc e"
  shows "floor_log2 x = e"
proof -
  have "(1 :: rat) \<le> 2 ^ e" by simp
  with assms(1) have "1 \<le> x" by linarith
  from floor_log2_bounds [OF this] have lo: "2 ^ floor_log2 x \<le> x"
    and hi: "x < 2 ^ Suc (floor_log2 x)"
    by simp_all
  from lo assms(2) have "(2 :: rat) ^ floor_log2 x < 2 ^ Suc e" by linarith
  then have "floor_log2 x < Suc e" by (simp only: power_strict_increasing_iff [of 2] one_less_numeral_iff semiring_norm)
  moreover from assms(1) hi have "(2 :: rat) ^ e < 2 ^ Suc (floor_log2 x)" by linarith
  then have "e < Suc (floor_log2 x)" by (simp only: power_strict_increasing_iff [of 2] one_less_numeral_iff semiring_norm)
  ultimately show ?thesis by simp
qed

lemma expo_unique:
  assumes "2 ^ e \<le> x" and "x < 2 ^ Suc e"
  shows "expo x = int e"
proof -
  have "(1 :: rat) \<le> 2 ^ e" by simp
  with assms(1) have "1 \<le> x" by linarith
  then have "\<bar>x\<bar> = x" by simp
  with \<open>1 \<le> x\<close> floor_log2_unique [OF assms] show ?thesis
    by (simp add: expo_def)
qed

lemma round_half_even_of_int: "round_half_even (of_int n) = n"
  by (simp add: round_half_even_def)

lemma round_half_even_frac:
  fixes a b :: int
  assumes "0 < b"
  shows "round_half_even (of_int a / of_int b)
    = (if 2 * (a mod b) < b then a div b
       else if b < 2 * (a mod b) then a div b + 1
       else if even (a div b) then a div b else a div b + 1)"
proof -
  have f: "\<lfloor>(of_int a / of_int b :: rat)\<rfloor> = a div b"
    by (simp add: floor_divide_of_int_eq)
  have "(of_int a :: rat) = of_int (a div b) * of_int b + of_int (a mod b)"
    by (metis of_int_add of_int_mult div_mult_mod_eq)
  with assms have d: "(of_int a / of_int b :: rat) - of_int (a div b) = of_int (a mod b) / of_int b"
    by (simp add: field_simps)
  from assms have lt: "(of_int (a mod b) / of_int b :: rat) < 1 / 2 \<longleftrightarrow> 2 * (a mod b) < b"
  proof -
    have "(of_int (a mod b) / of_int b :: rat) < 1 / 2 \<longleftrightarrow> (of_int (2 * (a mod b)) :: rat) < of_int b"
      using assms by (simp add: field_simps)
    then show ?thesis by (simp only: of_int_less_iff)
  qed
  from assms have gt: "1 / 2 < (of_int (a mod b) / of_int b :: rat) \<longleftrightarrow> b < 2 * (a mod b)"
  proof -
    have "1 / 2 < (of_int (a mod b) / of_int b :: rat) \<longleftrightarrow> (of_int b :: rat) < of_int (2 * (a mod b))"
      using assms by (simp add: field_simps)
    then show ?thesis by (simp only: of_int_less_iff)
  qed
  show ?thesis
    unfolding round_half_even_def Let_def f d lt gt ..
qed

lemma round_half_even_bounds:
  assumes "0 \<le> r" and "r \<le> of_int M"
  shows "0 \<le> round_half_even r \<and> round_half_even r \<le> M"
proof -
  from assms(1) have f0: "0 \<le> \<lfloor>r\<rfloor>" by simp
  have fM: "\<lfloor>r\<rfloor> \<le> M" using floor_mono [OF assms(2)] by simp
  have up: "\<lfloor>r\<rfloor> + 1 \<le> M" if "r \<noteq> of_int \<lfloor>r\<rfloor>"
  proof -
    from that have "of_int \<lfloor>r\<rfloor> < r"
      by (metis of_int_floor_le order_le_imp_less_or_eq)
    with assms(2) have "(of_int \<lfloor>r\<rfloor> :: rat) < of_int M" by linarith
    then show ?thesis by simp
  qed
  show ?thesis
    unfolding round_half_even_def Let_def using f0 fM up by auto
qed

text \<open>
  Rounding a fraction at a known exponent \<open>e \<le> 52\<close>: pure integer arithmetic.
\<close>

lemma round_double_eval:
  fixes a b :: int and e :: nat
  assumes b: "0 < b" and lo: "b * 2 ^ e \<le> a" and hi: "a < b * 2 ^ Suc e" and e: "e \<le> 52"
  shows "round_double (of_int a / of_int b)
    = Num (of_int (round_half_even (of_int (a * 2 ^ (52 - e)) / of_int b)) / 2 ^ (52 - e))"
proof -
  let ?x = "of_int a / of_int b :: rat"
  from b have b': "(0 :: rat) < of_int b" by simp
  have "(of_int (b * 2 ^ e) :: rat) \<le> of_int a"
    using lo by (simp only: of_int_le_iff)
  with b' have xlo: "2 ^ e \<le> ?x"
    by (simp add: field_simps)
  have "(of_int a :: rat) < of_int (b * 2 ^ Suc e)"
    using hi by (simp only: of_int_less_iff)
  with b' have xhi: "?x < 2 ^ Suc e"
    by (simp add: field_simps)
  have "(0 :: rat) < 2 ^ e" by simp
  with xlo have x0: "?x \<noteq> 0" and xpos: "0 < ?x" by linarith+
  have ex: "expo ?x = int e"
    by (rule expo_unique [OF xlo xhi])
  from e have q: "max (expo ?x - 52) (- 1074) = - int (52 - e)"
    unfolding ex by simp
  have p: "(2 :: rat) powi (- int (52 - e)) = 1 / 2 ^ (52 - e)"
    by (simp add: power_int_minus inverse_eq_divide)
  have scaled: "?x / (1 / 2 ^ (52 - e)) = of_int (a * 2 ^ (52 - e)) / of_int b"
    by simp
  let ?m = "round_half_even (of_int (a * 2 ^ (52 - e)) / of_int b)"
  have req: "of_int (a * 2 ^ (52 - e)) / of_int b = ?x * 2 ^ (52 - e)"
    by simp
  have "?x * 2 ^ (52 - e) < 2 ^ Suc e * 2 ^ (52 - e)"
    using xhi by (intro mult_strict_right_mono) simp_all
  also from e have "\<dots> = (2 :: rat) ^ 53"
    by (simp flip: power_add)
  finally have r53: "of_int (a * 2 ^ (52 - e)) / of_int b \<le> (of_int (2 ^ 53) :: rat)"
    unfolding req by simp
  have "(0 :: rat) \<le> ?x * 2 ^ (52 - e)"
    using xpos by (intro mult_nonneg_nonneg) simp_all
  then have r0: "(0 :: rat) \<le> of_int (a * 2 ^ (52 - e)) / of_int b"
    unfolding req .
  from round_half_even_bounds [OF r0 r53] have m0: "0 \<le> ?m" and m53: "?m \<le> 2 ^ 53"
    by simp_all
  have y0: "(0 :: rat) \<le> of_int ?m / 2 ^ (52 - e)"
    using m0 by simp
  have one: "(1 :: rat) \<le> 2 ^ (52 - e)"
    by simp
  have "of_int ?m * 1 \<le> (of_int ?m :: rat) * 2 ^ (52 - e)"
    using m0 one by (intro mult_left_mono) simp_all
  then have "(of_int ?m :: rat) / 2 ^ (52 - e) \<le> of_int ?m"
    by (simp add: pos_divide_le_eq)
  also have "(of_int ?m :: rat) \<le> of_int (2 ^ 53)"
    using m53 by (simp only: of_int_le_iff)
  also have "(of_int (2 ^ 53) :: rat) < 2 ^ 1024"
    by simp
  finally have y1: "(of_int ?m :: rat) / 2 ^ (52 - e) < 2 ^ 1024" .
  have neg: "(- (2 ^ 1024) :: rat) < 0"
    by simp
  from y0 y1 neg show ?thesis
    unfolding round_double_def Let_def q p
    by (simp only: x0 if_False scaled times_divide_eq_right mult_1_right) (simp add: not_le)
qed

text \<open>A value with at most 53 significant bits is a double: rounding leaves it as it is.\<close>

lemma round_double_exact:
  fixes m :: int and k :: nat
  assumes m0: "0 < m" and m53: "m < 2 ^ 53" and k: "k \<le> 970"
  shows "round_double (of_int m * 2 ^ k) = Num (of_int m * 2 ^ k)"
proof -
  let ?x = "of_int m * 2 ^ k :: rat"
  from m0 have m1: "(1 :: rat) \<le> of_int m" by simp
  have k1: "(1 :: rat) \<le> 2 ^ k" by simp
  from m1 k1 have x1: "1 \<le> ?x"
    using mult_mono [of 1 "of_int m :: rat" 1 "2 ^ k"] by simp
  then have x0: "?x \<noteq> 0" by linarith
  define e where "e = floor_log2 ?x"
  from floor_log2_bounds [OF x1] have lo: "2 ^ e \<le> ?x" and hi: "?x < 2 ^ Suc e"
    unfolding e_def by simp_all
  have ex: "expo ?x = int e"
    by (rule expo_unique [OF lo hi])
  have "(of_int m :: rat) < of_int (2 ^ 53)"
    using m53 by (simp only: of_int_less_iff)
  then have m53': "(of_int m :: rat) < 2 ^ 53" by simp
  then have "?x < 2 ^ 53 * 2 ^ k"
    by (intro mult_strict_right_mono) simp_all
  then have xhi: "?x < 2 ^ (53 + k)"
    by (simp add: power_add)
  with lo have "(2 :: rat) ^ e < 2 ^ (53 + k)" by linarith
  then have "e < 53 + k"
    by (simp only: power_strict_increasing_iff [of 2] one_less_numeral_iff semiring_norm)
  then have ek: "e \<le> 52 + k" by simp
  define n where "n = 52 + k - e"
  have q: "max (expo ?x - 52) (- 1074) = int e - 52"
    unfolding ex by simp
  have "(2 :: rat) powi (int e - 52) * 2 ^ n = 2 powi (int e - 52) * 2 powi int n"
    by simp
  also have "\<dots> = 2 powi (int e - 52 + int n)"
    by (simp add: power_int_add)
  also from ek have "int e - 52 + int n = int k"
    unfolding n_def by simp
  finally have pk: "(2 :: rat) powi (int e - 52) * 2 ^ n = 2 ^ k"
    by simp
  have ppos: "(0 :: rat) < 2 powi (int e - 52)"
    by (simp add: zero_less_power_int)
  have "?x / 2 powi (int e - 52) = of_int m * (2 powi (int e - 52) * 2 ^ n) / 2 powi (int e - 52)"
    by (simp only: pk)
  also from ppos have "\<dots> = of_int (m * 2 ^ n)"
    by simp
  finally have scaled: "?x / 2 powi (int e - 52) = of_int (m * 2 ^ n)" .
  have unscaled: "of_int (m * 2 ^ n) * 2 powi (int e - 52) = ?x"
    using pk by (simp add: mult.assoc mult.commute [of "2 ^ n"])
  have "(2 :: rat) ^ (53 + k) \<le> 2 ^ 1023"
    using k by (intro power_increasing) simp_all
  with xhi have "?x < 2 ^ 1023" by linarith
  also have "(2 :: rat) ^ 1023 < 2 ^ 1024" by simp
  finally have x1024: "?x < 2 ^ 1024" .
  have "(- (2 ^ 1024) :: rat) < 0" by simp
  with x1 have xneg: "\<not> ?x \<le> - (2 ^ 1024)"
    by linarith
  show ?thesis
    unfolding round_double_def Let_def q scaled round_half_even_of_int unscaled
    using x0 x1024 xneg by (simp only: if_False not_le [symmetric])
qed

lemma round_double_nat:
  assumes "N < 2 ^ 53"
  shows "round_double (of_nat N) = Num (of_nat N)"
proof (cases "N = 0")
  case True
  then show ?thesis by (simp add: round_double_def)
next
  case False
  with assms have "0 < int N" "int N < 2 ^ 53"
    by (simp_all add: of_nat_less_numeral_power_cancel_iff)
  from round_double_exact [OF this, of 0] show ?thesis
    by simp
qed

lemma ten_power: "(10 :: rat) ^ d = of_int (5 ^ d) * 2 ^ d"
  by (simp flip: power_mult_distrib)

lemma js_pow10_exact:
  assumes d: "d \<le> 22"
  shows "js_pow10 d = Num (10 ^ d)"
proof -
  have "(5 :: int) ^ d \<le> 5 ^ 22"
    using d by (intro power_increasing) simp_all
  also have "(5 :: int) ^ 22 < 2 ^ 53"
    by simp
  finally have five: "(5 :: int) ^ d < 2 ^ 53" .
  have "0 < (5 :: int) ^ d" and "d \<le> 970"
    using d by simp_all
  from round_double_exact [OF this(1) five this(2)] show ?thesis
    by (simp add: js_pow10_def ten_power)
qed

text \<open>Whole amounts: as long as the product has at most 53 significant bits, it is exact.\<close>

lemma balancePlanck_whole:
  assumes d: "d \<le> 22" and N: "N * 5 ^ d < 2 ^ 53"
  shows "balancePlanck (Decimal (of_nat N)) d = Some (int N * 10 ^ d)"
proof -
  note ten = ten_power [of d]
  note pow = js_pow10_exact [OF d]
  have "N \<le> N * 5 ^ d"
    by simp
  with N have "N < 2 ^ 53"
    by linarith
  then have amount: "parseFloat (Decimal (of_nat N)) = Num (of_nat N)"
    by (simp add: round_double_nat)
  have prod: "round_double (of_nat N * 10 ^ d) = Num (of_nat N * 10 ^ d)"
  proof (cases "N = 0")
    case True
    then show ?thesis by (simp add: round_double_def)
  next
    case False
    have "int (N * 5 ^ d) < 2 ^ 53"
      using N by (simp only: of_nat_less_numeral_power_cancel_iff)
    with False have "0 < int N * 5 ^ d" "int N * 5 ^ d < 2 ^ 53" "d \<le> 970"
      using d by simp_all
    from round_double_exact [OF this] show ?thesis
      by (simp add: ten mult.assoc)
  qed
  have "(of_nat N * 10 ^ d :: rat) = of_int (int N * 10 ^ d)"
    by simp
  then have "balancePlanck (Decimal (of_nat N)) d = BigInt (Math_floor (Num (of_int (int N * 10 ^ d))))"
    unfolding balancePlanck_def amount pow js_mul.simps prod by (simp only:)
  also have "\<dots> = Some (int N * 10 ^ d)"
    by (simp only: Math_floor.simps BigInt.simps floor_of_int refl if_True)
  finally show ?thesis .
qed

text \<open>The amount 4.35 on a network of twelve decimals, step by step.\<close>

lemma parseFloat_435:
  "parseFloat (Decimal (435 / 100)) = Num (4897664594765414 / 2 ^ 50)"
proof -
  have "round_half_even (of_int (435 * 2 ^ (52 - 2)) / of_int 100) = 4897664594765414"
    by (subst round_half_even_frac) simp_all
  with round_double_eval [of 100 2 435] show ?thesis
    by simp
qed

lemma product_435:
  "js_mul (Num (4897664594765414 / 2 ^ 50)) (Num (10 ^ 12)) = Num (8908799999999999 / 2 ^ 11)"
proof -
  have "round_half_even (of_int (4897664594765414 * 10 ^ 12 * 2 ^ (52 - 41)) / of_int (2 ^ 50))
      = 8908799999999999"
    by (subst round_half_even_frac) simp_all
  with round_double_eval [of "2 ^ 50" 41 "4897664594765414 * 10 ^ 12"] show ?thesis
    by simp
qed

lemma balancePlanck_435: "balancePlanck (Decimal (435 / 100)) 12 = Some 4349999999999"
proof -
  have pow: "js_pow10 12 = Num (10 ^ 12)"
    by (rule js_pow10_exact) simp
  have "balancePlanck (Decimal (435 / 100)) 12
    = BigInt (Math_floor (Num (8908799999999999 / 2 ^ 11)))"
    unfolding balancePlanck_def parseFloat_435 pow product_435 by (rule refl)
  also have "\<dots> = Some 4349999999999"
  proof -
    have "\<lfloor>8908799999999999 / 2 ^ 11 :: rat\<rfloor> = 4349999999999"
      by (rule floor_unique) simp_all
    then show ?thesis
      by simp
  qed
  finally show ?thesis .
qed

section \<open>Runs of the delegation script\<close>

lemma networks_own:
  assumes "js_get NETWORKS name = Own nw"
  shows "maxTracksPerBatch nw = 4 \<and> (decimals nw = 12 \<or> decimals nw = 10)"
  using assms by (auto simp: js_get_def NETWORKS_def split: if_splits)

lemma delegate_submission_settles: "\<exists>r. delegate_submission reg tr = Some r"
proof (cases rule: submission_cases [of reg tr])
  case timeout
  then show ?thesis by simp
next
  case (settled pre t h post)
  from settled(4) have "result (deliver reg h monitor_init) \<noteq> None"
    by (simp add: deliver_terminal)
  with settled(5) show ?thesis by auto
qed

text \<open>The loop submits every batch, in order, whatever the outcomes.\<close>

lemma delegate_submit_loop_total:
  "\<exists>rs. delegate_submit_loop reg ch i batches = Some rs \<and> map fst rs = batches
     \<and> (\<forall>k<length batches.
           delegate_submission reg (ch (i + k) (batches ! k)) = Some (snd (rs ! k)))"
proof (induction batches arbitrary: i)
  case Nil
  show ?case by simp
next
  case (Cons batch rest)
  from delegate_submission_settles obtain r where r: "delegate_submission reg (ch i batch) = Some r"
    by blast
  from Cons.IH [of "Suc i"] obtain rs where
    rs: "delegate_submit_loop reg ch (Suc i) rest = Some rs" "map fst rs = rest"
    and each: "\<forall>k<length rest. delegate_submission reg (ch (Suc i + k) (rest ! k)) = Some (snd (rs ! k))"
    by blast
  have "\<forall>k<length (batch # rest).
      delegate_submission reg (ch (i + k) ((batch # rest) ! k)) = Some (snd (((batch, r) # rs) ! k))"
  proof (intro allI impI)
    fix k
    assume "k < length (batch # rest)"
    then show "delegate_submission reg (ch (i + k) ((batch # rest) ! k))
      = Some (snd (((batch, r) # rs) ! k))"
      using r each by (cases k) simp_all
  qed
  with r rs show ?case
    by (intro exI [of _ "(batch, r) # rs"]) simp
qed

lemma delegate_main_run:
  assumes "js_get NETWORKS (case arg_network args of Some n \<Rightarrow> n | None \<Rightarrow> ''kusama'') = Own nw"
    and "js_get CONVICTION_MULTIPLIERS (arg_conviction args) \<noteq> Missing"
    and "balancePlanck (arg_balance args) (decimals nw) = Some planck"
    and "keyfile_exists env"
  shows "delegate_main env args =
    (let calls = delegate_calls (if arg_tracks args \<noteq> [] then arg_tracks args else ALL_TRACKS)
           (arg_delegateTo args) (arg_conviction args) planck
     in if arg_dryRun args then DryRunShown calls
        else if answer env \<noteq> ''yes'' then Aborted calls
        else
          (case delegate_batches calls (maxTracksPerBatch nw) of
             None \<Rightarrow> NeverEnds
           | Some batches \<Rightarrow>
               (case delegate_submit_loop (registry_of env) (chain env) 0 batches of
                  None \<Rightarrow> NeverEnds
                | Some rs \<Rightarrow> Done rs)))"
  using assms by (simp add: delegate_main_def Let_def)

text \<open>Past the confirmation, a run submits all its batches and is done.\<close>

lemma delegate_main_done:
  assumes net: "js_get NETWORKS (case arg_network args of Some n \<Rightarrow> n | None \<Rightarrow> ''kusama'') = Own nw"
    and conv: "js_get CONVICTION_MULTIPLIERS (arg_conviction args) \<noteq> Missing"
    and bal: "balancePlanck (arg_balance args) (decimals nw) = Some planck"
    and key: "keyfile_exists env"
    and go: "\<not> arg_dryRun args" "answer env = ''yes''"
  shows "\<exists>batches rs.
      delegate_batches
        (delegate_calls (if arg_tracks args \<noteq> [] then arg_tracks args else ALL_TRACKS)
           (arg_delegateTo args) (arg_conviction args) planck) 4 = Some batches
    \<and> concat batches
        = delegate_calls (if arg_tracks args \<noteq> [] then arg_tracks args else ALL_TRACKS)
           (arg_delegateTo args) (arg_conviction args) planck
    \<and> delegate_main env args = Done rs \<and> map fst rs = batches
    \<and> (\<forall>k<length batches.
          delegate_submission (registry_of env) (chain env k (batches ! k)) = Some (snd (rs ! k)))"
proof -
  let ?calls = "delegate_calls (if arg_tracks args \<noteq> [] then arg_tracks args else ALL_TRACKS)
           (arg_delegateTo args) (arg_conviction args) planck"
  from networks_own [OF net] have four: "maxTracksPerBatch nw = 4"
    by simp
  from chunk_loop_total [of 4 ?calls 0 "[]"] obtain batches where
    b: "delegate_batches ?calls 4 = Some batches" "concat batches = ?calls"
    by (auto simp: delegate_batches_def)
  from delegate_submit_loop_total [of "registry_of env" "chain env" 0 batches] obtain rs where
    rs: "delegate_submit_loop (registry_of env) (chain env) 0 batches = Some rs"
      "map fst rs = batches"
      "\<forall>k<length batches.
          delegate_submission (registry_of env) (chain env k (batches ! k)) = Some (snd (rs ! k))"
    by auto
  from go b(1) rs(1) four have "delegate_main env args = Done rs"
    unfolding delegate_main_run [OF net conv bal key] by (simp add: Let_def)
  with b rs show ?thesis
    by blast
qed

text \<open>Where a run planned its calls, it had a network, a balance and one call per track.\<close>

lemma delegate_main_planned:
  assumes "planned_calls (delegate_main env args) = Some calls"
  shows "\<exists>nw planck.
      js_get NETWORKS (case arg_network args of Some n \<Rightarrow> n | None \<Rightarrow> ''kusama'') = Own nw
    \<and> js_get CONVICTION_MULTIPLIERS (arg_conviction args) \<noteq> Missing
    \<and> balancePlanck (arg_balance args) (decimals nw) = Some planck
    \<and> keyfile_exists env
    \<and> calls = delegate_calls (if arg_tracks args \<noteq> [] then arg_tracks args else ALL_TRACKS)
          (arg_delegateTo args) (arg_conviction args) planck"
proof -
  let ?name = "case arg_network args of Some n \<Rightarrow> n | None \<Rightarrow> ''kusama''"
  from assms obtain nw where net: "js_get NETWORKS ?name = Own nw"
    by (cases "js_get NETWORKS ?name") (auto simp: delegate_main_def Let_def split: if_splits)
  from assms net have conv: "js_get CONVICTION_MULTIPLIERS (arg_conviction args) \<noteq> Missing"
    by (auto simp: delegate_main_def Let_def split: if_splits)
  from assms net conv obtain planck where
    bal: "balancePlanck (arg_balance args) (decimals nw) = Some planck"
    by (cases "balancePlanck (arg_balance args) (decimals nw)")
      (auto simp: delegate_main_def Let_def)
  from assms net conv bal have key: "keyfile_exists env"
    by (auto simp: delegate_main_def Let_def split: if_splits)
  let ?calls = "delegate_calls (if arg_tracks args \<noteq> [] then arg_tracks args else ALL_TRACKS)
          (arg_delegateTo args) (arg_conviction args) planck"
  have "calls = ?calls"
  proof (cases "arg_dryRun args \<or> answer env \<noteq> ''yes''")
    case True
    show ?thesis
    proof (cases "arg_dryRun args")
      case True
      with assms show ?thesis
        unfolding delegate_main_run [OF net conv bal key] by (simp add: Let_def)
    next
      case False
      with True have "answer env \<noteq> ''yes''" by simp
      with False assms show ?thesis
        unfolding delegate_main_run [OF net conv bal key] by (simp add: Let_def)
    qed
  next
    case False
    then have go: "\<not> arg_dryRun args" "answer env = ''yes''" by simp_all
    from delegate_main_done [OF net conv bal key go] obtain batches rs where
      "concat batches = ?calls" "delegate_main env args = Done rs" "map fst rs = batches"
      by blast
    with assms show ?thesis by simp
  qed
  with net conv bal key show ?thesis
    by blast
qed

lemma op_balance_delegate_calls:
  "c \<in> set (delegate_calls tracks delegateTo conviction planck) \<Longrightarrow> op_balance c = Some planck"
  by (auto simp: delegate_calls_def)

lemma op_track_delegate_calls:
  "map op_track (delegate_calls tracks delegateTo conviction planck) = tracks"
  by (induction tracks) (simp_all add: delegate_calls_def)

lemma js_get_kusama:
  "js_get NETWORKS ''kusama''
     = Own \<lparr>nw_name = ''Kusama Asset Hub'',
         endpoint = ''wss://sys.ibp.network:443/asset-hub-kusama'',
         ss58Format = 2, maxTracksPerBatch = 4, decimals = 12, symbol = ''KSM'',
         baseLockDays = 7\<rparr>"
  by (simp add: js_get_def NETWORKS_def)

lemma js_get_conviction:
  "js_get CONVICTION_MULTIPLIERS c = Missing
     \<longleftrightarrow> c \<notin> fst ` set CONVICTION_MULTIPLIERS \<and> c \<notin> set OBJECT_PROTOTYPE_KEYS"
proof (cases "map_of CONVICTION_MULTIPLIERS c")
  case None
  then have "c \<notin> fst ` set CONVICTION_MULTIPLIERS"
    by (simp add: map_of_eq_None_iff)
  with None show ?thesis
    by (simp add: js_get_def)
next
  case (Some v)
  then have "(c, v) \<in> set CONVICTION_MULTIPLIERS"
    by (rule map_of_SomeD)
  then have "c \<in> fst ` set CONVICTION_MULTIPLIERS"
    by force
  with Some show ?thesis
    by (simp add: js_get_def)
qed

section \<open>The balance of a delegation\<close>

text \<open>
  Claim C9, as amended. The balance placed into every planned \<open>Delegate\<close> operation is
  \<^verbatim>\<open>BigInt(Math.floor(amount * 10 ** decimals))\<close>, computed in double precision: the
  amount is read by \<^verbatim>\<open>parseFloat\<close>, multiplied once with rounding, and floored. For a whole
  amount \<open>N\<close> with \<open>N * 5 ^ decimals < 2 ^ 53\<close> this is exactly \<open>N * 10 ^ decimals\<close>; in
  particular 650 on a network of twelve decimals stores 650000000000000.
\<close>

theorem delegate_balance:
  "(\<forall>calls. planned_calls (delegate_main env args) = Some calls \<longrightarrow>
      (\<exists>nw planck.
          js_get NETWORKS (case arg_network args of Some n \<Rightarrow> n | None \<Rightarrow> ''kusama'') = Own nw
        \<and> balancePlanck (arg_balance args) (decimals nw) = Some planck
        \<and> (\<forall>c\<in>set calls. op_balance c = Some planck)))
   \<and> balancePlanck amountArg d = BigInt (Math_floor (js_mul (parseFloat amountArg) (js_pow10 d)))
   \<and> (d \<le> 22 \<and> N * 5 ^ d < 2 ^ 53 \<longrightarrow>
        balancePlanck (Decimal (of_nat N)) d = Some (int N * 10 ^ d))
   \<and> balancePlanck (Decimal 650) 12 = Some 650000000000000"
proof (intro conjI allI impI)
  fix calls
  assume "planned_calls (delegate_main env args) = Some calls"
  from delegate_main_planned [OF this] show "\<exists>nw planck.
          js_get NETWORKS (case arg_network args of Some n \<Rightarrow> n | None \<Rightarrow> ''kusama'') = Own nw
        \<and> balancePlanck (arg_balance args) (decimals nw) = Some planck
        \<and> (\<forall>c\<in>set calls. op_balance c = Some planck)"
    by (auto simp: op_balance_delegate_calls)
next
  show "balancePlanck amountArg d = BigInt (Math_floor (js_mul (parseFloat amountArg) (js_pow10 d)))"
    by (simp add: balancePlanck_def)
next
  assume "d \<le> 22 \<and> N * 5 ^ d < 2 ^ 53"
  then show "balancePlanck (Decimal (of_nat N)) d = Some (int N * 10 ^ d)"
    by (simp add: balancePlanck_whole)
next
  from balancePlanck_whole [of 12 650] show "balancePlanck (Decimal 650) 12 = Some 650000000000000"
    by simp
qed

theorem delegate_balance_witness:
  "planned_calls
      (delegate_main
        \<lparr>keyfile_exists = True, answer = ''yes'',
         registry_of = (\<lambda>i k. \<lparr>me_section = [], me_name = [], me_docs = []\<rparr>),
         chain = (\<lambda>i batch. [])\<rparr>
        \<lparr>arg_account = ''A'', arg_keyfile = ''proxy.txt'', arg_delegateTo = ''T'',
         arg_balance = Decimal 650, arg_conviction = ''Locked5x'', arg_dryRun = True,
         arg_network = Some ''kusama'', arg_tracks = [0, 1]\<rparr>)
    = Some [Delegate 0 ''T'' ''Locked5x'' 650000000000000,
            Delegate 1 ''T'' ''Locked5x'' 650000000000000]
   \<and> (12 :: nat) \<le> 22 \<and> (650 :: nat) * 5 ^ 12 < 2 ^ 53"
proof -
  let ?env = "\<lparr>keyfile_exists = True, answer = ''yes'',
         registry_of = (\<lambda>i k :: nat. \<lparr>me_section = [], me_name = [], me_docs = []\<rparr>),
         chain = (\<lambda>(i :: nat) (batch :: operation list). [])\<rparr>"
  let ?args = "\<lparr>arg_account = ''A'', arg_keyfile = ''proxy.txt'', arg_delegateTo = ''T'',
         arg_balance = Decimal 650, arg_conviction = ''Locked5x'', arg_dryRun = True,
         arg_network = Some ''kusama'', arg_tracks = [0, 1]\<rparr>"
  from delegate_balance [of ?env ?args "Decimal 650" 12 650] have bal: "balancePlanck (Decimal 650) 12 = Some 650000000000000"
    by blast
  have conv: "js_get CONVICTION_MULTIPLIERS ''Locked5x'' \<noteq> Missing"
    by (simp add: js_get_def CONVICTION_MULTIPLIERS_def)
  have "delegate_main ?env ?args
    = DryRunShown (delegate_calls [0, 1] ''T'' ''Locked5x'' 650000000000000)"
    by (subst delegate_main_run [where nw = "\<lparr>nw_name = ''Kusama Asset Hub'',
         endpoint = ''wss://sys.ibp.network:443/asset-hub-kusama'',
         ss58Format = 2, maxTracksPerBatch = 4, decimals = 12, symbol = ''KSM'',
         baseLockDays = 7\<rparr>" and planck = 650000000000000])
      (simp_all add: js_get_kusama conv bal)
  then show ?thesis
    by (simp add: delegate_calls_def)
qed

theorem delegate_balance_counterexample:
  "balancePlanck (Decimal (435 / 100)) 12 = Some 4349999999999
   \<and> (of_int 4349999999999 :: rat) \<noteq> 435 / 100 * 10 ^ 12"
  using balancePlanck_435 by simp

section \<open>What the delegation script checks\<close>

text \<open>
  Claim C5, as amended. The delegation script rejects a conviction that is not one of the
  enumerated levels (names that every object inherits aside) with \<^verbatim>\<open>Invalid conviction\<close>
  and exit status 1, before any chain interaction, and rejects no enumerated level. It has
  no check for duplicate track ids: every requested track, repeated or not, gets its
  \<open>Delegate\<close> operation, in the order given. It has no check that the amount is positive:
  an amount whose product \<^verbatim>\<open>BigInt\<close> refuses ends the run with a \<^verbatim>\<open>RangeError\<close> before any
  chain interaction, every other amount goes on to the chain.
\<close>

theorem delegate_validation:
  fixes env args
  defines "name \<equiv> (case arg_network args of Some n \<Rightarrow> n | None \<Rightarrow> ''kusama'')"
  shows
  "(js_get NETWORKS name \<noteq> Missing
      \<and> arg_conviction args \<notin> fst ` set CONVICTION_MULTIPLIERS
      \<and> arg_conviction args \<notin> set OBJECT_PROTOTYPE_KEYS
      \<longrightarrow> delegate_main env args = ExitInvalidConviction)
   \<and> \<not> chain_contacted ExitInvalidConviction
   \<and> delegate_exit_code ExitInvalidConviction = Some 1
   \<and> (arg_conviction args \<in> fst ` set CONVICTION_MULTIPLIERS
        \<longrightarrow> delegate_main env args \<noteq> ExitInvalidConviction)
   \<and> (\<forall>calls. planned_calls (delegate_main env args) = Some calls
        \<longrightarrow> map op_track calls = (if arg_tracks args \<noteq> [] then arg_tracks args else ALL_TRACKS))
   \<and> (\<forall>nw. js_get NETWORKS name = Own nw
          \<and> arg_conviction args \<in> fst ` set CONVICTION_MULTIPLIERS
          \<and> balancePlanck (arg_balance args) (decimals nw) = None
        \<longrightarrow> delegate_main env args = ThrownRangeError)
   \<and> \<not> chain_contacted ThrownRangeError
   \<and> (\<forall>nw planck. js_get NETWORKS name = Own nw
          \<and> arg_conviction args \<in> fst ` set CONVICTION_MULTIPLIERS
          \<and> balancePlanck (arg_balance args) (decimals nw) = Some planck
        \<longrightarrow> chain_contacted (delegate_main env args))"
proof (intro conjI allI impI)
  assume a: "js_get NETWORKS name \<noteq> Missing
      \<and> arg_conviction args \<notin> fst ` set CONVICTION_MULTIPLIERS
      \<and> arg_conviction args \<notin> set OBJECT_PROTOTYPE_KEYS"
  then have "js_get CONVICTION_MULTIPLIERS (arg_conviction args) = Missing"
    by (simp add: js_get_conviction)
  with a show "delegate_main env args = ExitInvalidConviction"
    unfolding name_def by (cases "js_get NETWORKS name") (simp_all add: delegate_main_def name_def)
next
  show "\<not> chain_contacted ExitInvalidConviction" by simp
  show "delegate_exit_code ExitInvalidConviction = Some 1" by simp
  show "\<not> chain_contacted ThrownRangeError" by simp
next
  assume "arg_conviction args \<in> fst ` set CONVICTION_MULTIPLIERS"
  then have "js_get CONVICTION_MULTIPLIERS (arg_conviction args) \<noteq> Missing"
    by (simp add: js_get_conviction)
  then show "delegate_main env args \<noteq> ExitInvalidConviction"
    by (cases "js_get NETWORKS name")
      (auto simp: delegate_main_def name_def Let_def split: option.splits if_splits)
next
  fix calls
  assume "planned_calls (delegate_main env args) = Some calls"
  from delegate_main_planned [OF this]
  show "map op_track calls = (if arg_tracks args \<noteq> [] then arg_tracks args else ALL_TRACKS)"
    by (auto simp: op_track_delegate_calls)
next
  fix nw
  assume a: "js_get NETWORKS name = Own nw
          \<and> arg_conviction args \<in> fst ` set CONVICTION_MULTIPLIERS
          \<and> balancePlanck (arg_balance args) (decimals nw) = None"
  then have "js_get CONVICTION_MULTIPLIERS (arg_conviction args) \<noteq> Missing"
    by (simp add: js_get_conviction)
  with a show "delegate_main env args = ThrownRangeError"
    by (simp add: delegate_main_def name_def Let_def)
next
  fix nw planck
  assume a: "js_get NETWORKS name = Own nw
          \<and> arg_conviction args \<in> fst ` set CONVICTION_MULTIPLIERS
          \<and> balancePlanck (arg_balance args) (decimals nw) = Some planck"
  then have "js_get CONVICTION_MULTIPLIERS (arg_conviction args) \<noteq> Missing"
    by (simp add: js_get_conviction)
  with a show "chain_contacted (delegate_main env args)"
    by (auto simp: delegate_main_def name_def Let_def split: option.splits)
qed

theorem delegate_validation_witness:
  "delegate_main
      \<lparr>keyfile_exists = True, answer = ''yes'',
       registry_of = (\<lambda>i k. \<lparr>me_section = [], me_name = [], me_docs = []\<rparr>),
       chain = (\<lambda>i batch. [])\<rparr>
      \<lparr>arg_account = ''A'', arg_keyfile = ''proxy.txt'', arg_delegateTo = ''T'',
       arg_balance = Decimal 650, arg_conviction = ''Locked7x'', arg_dryRun = False,
       arg_network = Some ''kusama'', arg_tracks = []\<rparr>
    = ExitInvalidConviction"
proof -
  let ?env = "\<lparr>keyfile_exists = True, answer = ''yes'',
       registry_of = (\<lambda>i k :: nat. \<lparr>me_section = [], me_name = [], me_docs = []\<rparr>),
       chain = (\<lambda>(i :: nat) (batch :: operation list). [])\<rparr>"
  let ?args = "\<lparr>arg_account = ''A'', arg_keyfile = ''proxy.txt'', arg_delegateTo = ''T'',
       arg_balance = Decimal 650, arg_conviction = ''Locked7x'', arg_dryRun = False,
       arg_network = Some ''kusama'', arg_tracks = []\<rparr>"
  have "js_get NETWORKS (case arg_network ?args of Some n \<Rightarrow> n | None \<Rightarrow> ''kusama'') \<noteq> Missing
      \<and> arg_conviction ?args \<notin> fst ` set CONVICTION_MULTIPLIERS
      \<and> arg_conviction ?args \<notin> set OBJECT_PROTOTYPE_KEYS"
    by (simp add: js_get_kusama CONVICTION_MULTIPLIERS_def OBJECT_PROTOTYPE_KEYS_def)
  with delegate_validation [of ?args ?env] show ?thesis
    by blast
qed

theorem delegate_validation_counterexample:
  "delegate_main
      \<lparr>keyfile_exists = True, answer = ''yes'',
       registry_of = (\<lambda>i k. \<lparr>me_section = [], me_name = [], me_docs = []\<rparr>),
       chain = (\<lambda>i batch. [])\<rparr>
      \<lparr>arg_account = ''A'', arg_keyfile = ''proxy.txt'', arg_delegateTo = ''T'',
       arg_balance = Decimal 0, arg_conviction = ''Locked5x'', arg_dryRun = True,
       arg_network = Some ''kusama'', arg_tracks = [0, 0]\<rparr>
    = DryRunShown [Delegate 0 ''T'' ''Locked5x'' 0, Delegate 0 ''T'' ''Locked5x'' 0]"
proof -
  have conv: "js_get CONVICTION_MULTIPLIERS ''Locked5x'' \<noteq> Missing"
    by (simp add: js_get_def CONVICTION_MULTIPLIERS_def)
  from balancePlanck_whole [of 12 0] have bal: "balancePlanck (Decimal 0) 12 = Some 0"
    by simp
  show ?thesis
    by (subst delegate_main_run [where nw = "\<lparr>nw_name = ''Kusama Asset Hub'',
         endpoint = ''wss://sys.ibp.network:443/asset-hub-kusama'',
         ss58Format = 2, maxTracksPerBatch = 4, decimals = 12, symbol = ''KSM'',
         baseLockDays = 7\<rparr>" and planck = 0])
      (simp_all add: js_get_kusama conv bal delegate_calls_def)
qed

section \<open>The loop of the cleanup script\<close>

lemma cleanup_loop_failure:
  assumes "cleanup_submission reg (ch i batch) = Some r" and "r \<noteq> ResolvedFinalized"
  shows "cleanup_submit_loop reg ch False i (batch # rest) = ([(batch, r)], Threw (outcome_message r))"
  using assms by (cases r) simp_all

lemma cleanup_loop_success:
  assumes "cleanup_submission reg (ch i batch) = Some ResolvedFinalized"
  shows "cleanup_submit_loop reg ch False i (batch # rest)
    = ((batch, ResolvedFinalized) # fst (cleanup_submit_loop reg ch False (Suc i) rest),
       snd (cleanup_submit_loop reg ch False (Suc i) rest))"
  using assms by (simp add: split_beta)

text \<open>The first batch that fails ends the loop: the batches after it are never submitted.\<close>

lemma cleanup_loop_first_failure:
  assumes "k < length batches"
    and "\<forall>j<k. cleanup_submission reg (ch (i + j) (batches ! j)) = Some ResolvedFinalized"
    and "cleanup_submission reg (ch (i + k) (batches ! k)) = Some r"
    and "r \<noteq> ResolvedFinalized"
  shows "cleanup_submit_loop reg ch False i batches
    = (map (\<lambda>b. (b, ResolvedFinalized)) (take k batches) @ [(batches ! k, r)],
       Threw (outcome_message r))"
  using assms
proof (induction batches arbitrary: i k)
  case Nil
  then show ?case by simp
next
  case (Cons batch rest)
  show ?case
  proof (cases k)
    case 0
    with Cons.prems show ?thesis
      by (simp add: cleanup_loop_failure del: cleanup_submit_loop.simps)
  next
    case (Suc k')
    from Cons.prems(2) Suc have first: "cleanup_submission reg (ch i batch) = Some ResolvedFinalized"
      by (metis add.right_neutral nth_Cons_0 zero_less_Suc)
    have before: "\<forall>j<k'. cleanup_submission reg (ch (Suc i + j) (rest ! j)) = Some ResolvedFinalized"
    proof (intro allI impI)
      fix j
      assume "j < k'"
      with Cons.prems(2) [rule_format, of "Suc j"] Suc
      show "cleanup_submission reg (ch (Suc i + j) (rest ! j)) = Some ResolvedFinalized"
        by simp
    qed
    from Cons.prems(1,3) Suc have k': "k' < length rest"
      and at: "cleanup_submission reg (ch (Suc i + k') (rest ! k')) = Some r"
      by simp_all
    from Cons.IH [OF k' before at Cons.prems(4)] Suc show ?thesis
      by (simp add: cleanup_loop_success [of reg ch i batch, OF first] del: cleanup_submit_loop.simps)
  qed
qed

lemma cleanup_loop_all_finalized:
  assumes "\<forall>k<length batches. cleanup_submission reg (ch (i + k) (batches ! k)) = Some ResolvedFinalized"
  shows "cleanup_submit_loop reg ch False i batches
    = (map (\<lambda>b. (b, ResolvedFinalized)) batches, Returned)"
  using assms
proof (induction batches arbitrary: i)
  case Nil
  show ?case by simp
next
  case (Cons batch rest)
  from Cons.prems have first: "cleanup_submission reg (ch i batch) = Some ResolvedFinalized"
    by (metis add.right_neutral length_greater_0_conv list.simps(3) nth_Cons_0)
  have "\<forall>k<length rest. cleanup_submission reg (ch (Suc i + k) (rest ! k)) = Some ResolvedFinalized"
  proof (intro allI impI)
    fix k
    assume "k < length rest"
    with Cons.prems [rule_format, of "Suc k"]
    show "cleanup_submission reg (ch (Suc i + k) (rest ! k)) = Some ResolvedFinalized"
      by simp
  qed
  from Cons.IH [OF this] show ?case
    by (simp add: cleanup_loop_success [of reg ch i batch, OF first] del: cleanup_submit_loop.simps)
qed

lemma cleanup_main_fatal:
  assumes "cleanup_plan (getVotingInfo (c_votingEntries env) (c_currentBlock env) (c_classLocks env))
      account unlockOnly \<noteq> []"
    and "c_answer env = ''yes'' \<or> c_answer env = ''y''"
    and "submitBatchViaProxy (c_registry env) (c_chain env)
      (cleanup_plan (getVotingInfo (c_votingEntries env) (c_currentBlock env) (c_classLocks env))
        account unlockOnly) networkConfig False = (rs, Threw msg)"
  shows "cleanup_main env networkConfig account False unlockOnly = Fatal rs msg"
  using assms by (auto simp: cleanup_main_def Let_def)

section \<open>Reported delegation amount\<close>

lemma totalDelegated_fold:
  "totalDelegated (foldl check_entry s es) = foldl max (totalDelegated s) (delegated_balances es)"
proof (induction es arbitrary: s)
  case Nil
  show ?case by simp
next
  case (Cons e es)
  obtain t v where e: "e = (t, v)" by (cases e)
  show ?case
    unfolding e by (cases v) (simp_all add: Cons.IH max_def)
qed

lemma delegationCount_fold:
  "delegationCount (foldl check_entry s es) = delegationCount s + length (delegated_balances es)"
proof (induction es arbitrary: s)
  case Nil
  show ?case by simp
next
  case (Cons e es)
  obtain t v where e: "e = (t, v)" by (cases e)
  show ?case
    unfolding e by (cases v) (simp_all add: Cons.IH)
qed

lemma foldl_max_Max:
  fixes a :: nat
  shows "foldl max a bs = Max (insert a (set bs))"
proof (induction bs arbitrary: a)
  case Nil
  show ?case by simp
next
  case (Cons b bs)
  have "Max (insert (max a b) (set bs)) = Max (insert a (insert b (set bs)))"
    by (cases "set bs = {}") (simp_all add: max.assoc)
  with Cons.IH [of "max a b"] show ?case
    by simp
qed

lemma two_le_sum_list:
  fixes bs :: "nat list"
  assumes "i < j" and "j < length bs"
  shows "bs ! i + bs ! j \<le> sum_list bs"
  using assms
proof (induction bs arbitrary: i j)
  case Nil
  then show ?case by simp
next
  case (Cons b bs)
  from Cons.prems obtain j' where j: "j = Suc j'" "j' < length bs"
    by (cases j) simp_all
  show ?case
  proof (cases i)
    case 0
    have "bs ! j' \<le> sum_list bs"
      using j(2) member_le_sum_list [of "bs ! j'" bs] by simp
    with 0 j show ?thesis by simp
  next
    case (Suc i')
    with Cons.prems j have "i' < j'" by simp
    from Cons.IH [OF this j(2)] Suc j show ?thesis by simp
  qed
qed

text \<open>
  Claim C10. The amount behind the summary line of the status checker is the largest
  balance delegated on a single track, not the sum over the tracks: it is one of the
  delegated balances, no delegated balance exceeds it, and as soon as two tracks delegate
  a positive balance it is less than their sum. The line is printed when it is positive.
\<close>

theorem reported_amount_is_maximum:
  fixes entries
  defines "bs \<equiv> delegated_balances entries"
  shows "totalDelegated (check_delegation entries) = Max (insert 0 (set bs))
   \<and> (\<forall>b\<in>set bs. b \<le> totalDelegated (check_delegation entries))
   \<and> (bs \<noteq> [] \<longrightarrow> totalDelegated (check_delegation entries) \<in> set bs)
   \<and> totalDelegated (check_delegation entries) \<le> sum_list bs
   \<and> (\<forall>i j. i < j \<and> j < length bs \<and> 0 < bs ! i \<and> 0 < bs ! j
        \<longrightarrow> totalDelegated (check_delegation entries) < sum_list bs)
   \<and> reported_amount entries
       = (if 0 < Max (insert 0 (set bs)) then Some (Max (insert 0 (set bs))) else None)
   \<and> delegationCount (check_delegation entries) = length bs"
proof -
  let ?M = "totalDelegated (check_delegation entries)"
  have M: "?M = Max (insert 0 (set bs))"
    by (simp add: check_delegation_def totalDelegated_fold foldl_max_Max bs_def)
  have ge: "\<forall>b\<in>set bs. b \<le> ?M"
    unfolding M by simp
  have "?M \<in> insert 0 (set bs)"
    unfolding M by (rule Max_in) simp_all
  moreover have "0 \<in> set bs" if "bs \<noteq> []" "?M = 0"
  proof -
    from that(1) obtain b where b: "b \<in> set bs" by (cases bs) auto
    with ge that(2) have "b = 0" by auto
    with b show ?thesis by simp
  qed
  ultimately have mem: "?M \<in> set bs" if "bs \<noteq> []"
    using that by auto
  have le: "?M \<le> sum_list bs"
  proof (cases "bs = []")
    case True
    then show ?thesis by (simp add: M)
  next
    case False
    from mem [OF this] member_le_sum_list [of ?M bs] show ?thesis by simp
  qed
  have strict: "?M < sum_list bs" if ij: "i < j \<and> j < length bs \<and> 0 < bs ! i \<and> 0 < bs ! j" for i j
  proof -
    from ij have "bs \<noteq> []" by auto
    from mem [OF this] obtain m where m: "m < length bs" "bs ! m = ?M"
      by (auto simp: in_set_conv_nth)
    consider "m < i" | "m = i" | "i < m"
      by linarith
    then show ?thesis
    proof cases
      case 1
      with ij have "bs ! m + bs ! i \<le> sum_list bs"
        by (intro two_le_sum_list) simp_all
      with ij m show ?thesis by simp
    next
      case 2
      with ij have "bs ! m + bs ! j \<le> sum_list bs"
        by (intro two_le_sum_list) simp_all
      with ij m show ?thesis by simp
    next
      case 3
      with m have "bs ! i + bs ! m \<le> sum_list bs"
        by (intro two_le_sum_list) simp_all
      with ij m show ?thesis by simp
    qed
  qed
  have rep: "reported_amount entries
       = (if 0 < Max (insert 0 (set bs)) then Some (Max (insert 0 (set bs))) else None)"
    by (simp add: reported_amount_def Let_def M)
  have cnt: "delegationCount (check_delegation entries) = length bs"
    by (simp add: check_delegation_def delegationCount_fold bs_def)
  from M ge mem le strict rep cnt show ?thesis
    by blast
qed

theorem reported_amount_is_maximum_witness:
  "reported_amount
      [(0, Delegating ''T'' ''Locked1x'' 5), (1, Casting [7] None),
       (2, Delegating ''T'' ''Locked1x'' 3)] = Some 5
   \<and> sum_list (delegated_balances
        [(0, Delegating ''T'' ''Locked1x'' 5), (1, Casting [7] None),
         (2, Delegating ''T'' ''Locked1x'' 3)]) = 8"
proof -
  let ?es = "[(0 :: int, Delegating ''T'' ''Locked1x'' 5), (1, Casting [7] None),
       (2, Delegating ''T'' ''Locked1x'' 3)]"
  from reported_amount_is_maximum [of ?es]
  have "reported_amount ?es
    = (if 0 < Max (insert 0 (set (delegated_balances ?es)))
       then Some (Max (insert 0 (set (delegated_balances ?es)))) else None)"
    by blast
  then show ?thesis
    by simp
qed

section \<open>A chunk that fails\<close>

text \<open>
  Claim C3, as amended. In the delegation script the loop submits every chunk in order
  and records its outcome, a failure included, before it goes on to the next chunk; a
  run that got past the confirmation is done with every chunk submitted, and the process
  exits with status 0 whatever the outcomes. In the cleanup script the first chunk that
  fails ends the run: the failure is thrown again, the chunks after it are never
  submitted, and the process exits with status 1.
\<close>

theorem chunk_failure:
  fixes env :: delegate_env and args :: delegate_args and cenv :: cleanup_env
    and account :: string and unlockOnly :: bool
  defines "name \<equiv> (case arg_network args of Some n \<Rightarrow> n | None \<Rightarrow> ''kusama'')"
  defines "tracks \<equiv> (if arg_tracks args \<noteq> [] then arg_tracks args else ALL_TRACKS)"
  defines "cplan \<equiv> cleanup_plan
      (getVotingInfo (c_votingEntries cenv) (c_currentBlock cenv) (c_classLocks cenv))
      account unlockOnly"
  shows
  "(\<exists>rs. delegate_submit_loop reg ch i batches = Some rs \<and> map fst rs = batches
      \<and> (\<forall>k<length batches.
            delegate_submission reg (ch (i + k) (batches ! k)) = Some (snd (rs ! k))))
   \<and> (\<forall>nw planck.
         js_get NETWORKS name = Own nw
       \<and> arg_conviction args \<in> fst ` set CONVICTION_MULTIPLIERS
       \<and> balancePlanck (arg_balance args) (decimals nw) = Some planck
       \<and> keyfile_exists env \<and> \<not> arg_dryRun args \<and> answer env = ''yes''
       \<longrightarrow> (\<exists>rs. delegate_main env args = Done rs
              \<and> concat (map fst rs)
                  = delegate_calls tracks (arg_delegateTo args) (arg_conviction args) planck
              \<and> delegate_exit_code (delegate_main env args) = Some 0))
   \<and> (\<forall>k r.
         k < length cbatches
       \<and> (\<forall>j<k. cleanup_submission reg (cch (i + j) (cbatches ! j)) = Some ResolvedFinalized)
       \<and> cleanup_submission reg (cch (i + k) (cbatches ! k)) = Some r
       \<and> r \<noteq> ResolvedFinalized
       \<longrightarrow> cleanup_submit_loop reg cch False i cbatches
             = (map (\<lambda>b. (b, ResolvedFinalized)) (take k cbatches) @ [(cbatches ! k, r)],
                Threw (outcome_message r)))
   \<and> (\<forall>rs msg.
         cplan \<noteq> [] \<and> (c_answer cenv = ''yes'' \<or> c_answer cenv = ''y'')
       \<and> submitBatchViaProxy (c_registry cenv) (c_chain cenv) cplan networkConfig False
           = (rs, Threw msg)
       \<longrightarrow> cleanup_main cenv networkConfig account False unlockOnly = Fatal rs msg
           \<and> cleanup_exit_code (cleanup_main cenv networkConfig account False unlockOnly)
               = Some 1)"
proof (intro conjI allI impI)
  show "\<exists>rs. delegate_submit_loop reg ch i batches = Some rs \<and> map fst rs = batches
      \<and> (\<forall>k<length batches.
            delegate_submission reg (ch (i + k) (batches ! k)) = Some (snd (rs ! k)))"
    by (rule delegate_submit_loop_total)
next
  fix nw planck
  assume a: "js_get NETWORKS name = Own nw
       \<and> arg_conviction args \<in> fst ` set CONVICTION_MULTIPLIERS
       \<and> balancePlanck (arg_balance args) (decimals nw) = Some planck
       \<and> keyfile_exists env \<and> \<not> arg_dryRun args \<and> answer env = ''yes''"
  then have net: "js_get NETWORKS (case arg_network args of Some n \<Rightarrow> n | None \<Rightarrow> ''kusama'') = Own nw"
    and conv: "js_get CONVICTION_MULTIPLIERS (arg_conviction args) \<noteq> Missing"
    and bal: "balancePlanck (arg_balance args) (decimals nw) = Some planck"
    and key: "keyfile_exists env" and go: "\<not> arg_dryRun args" "answer env = ''yes''"
    by (simp_all add: name_def js_get_conviction)
  from delegate_main_done [OF net conv bal key go] obtain batches' rs where
    "concat batches'
        = delegate_calls (if arg_tracks args \<noteq> [] then arg_tracks args else ALL_TRACKS)
           (arg_delegateTo args) (arg_conviction args) planck"
    "delegate_main env args = Done rs" "map fst rs = batches'"
    by blast
  then show "\<exists>rs. delegate_main env args = Done rs
              \<and> concat (map fst rs)
                  = delegate_calls tracks (arg_delegateTo args) (arg_conviction args) planck
              \<and> delegate_exit_code (delegate_main env args) = Some 0"
    by (auto simp: tracks_def)
next
  fix k r
  assume a: "k < length cbatches
       \<and> (\<forall>j<k. cleanup_submission reg (cch (i + j) (cbatches ! j)) = Some ResolvedFinalized)
       \<and> cleanup_submission reg (cch (i + k) (cbatches ! k)) = Some r
       \<and> r \<noteq> ResolvedFinalized"
  then show "cleanup_submit_loop reg cch False i cbatches
             = (map (\<lambda>b. (b, ResolvedFinalized)) (take k cbatches) @ [(cbatches ! k, r)],
                Threw (outcome_message r))"
    by (intro cleanup_loop_first_failure) blast+
next
  fix rs msg
  assume a: "cplan \<noteq> [] \<and> (c_answer cenv = ''yes'' \<or> c_answer cenv = ''y'')
       \<and> submitBatchViaProxy (c_registry cenv) (c_chain cenv) cplan networkConfig False
           = (rs, Threw msg)"
  then have fatal: "cleanup_main cenv networkConfig account False unlockOnly = Fatal rs msg"
    unfolding cplan_def by (intro cleanup_main_fatal) blast+
  then show "cleanup_main cenv networkConfig account False unlockOnly = Fatal rs msg" .
  from fatal show "cleanup_exit_code (cleanup_main cenv networkConfig account False unlockOnly)
               = Some 1"
    by simp
qed

lemma five_calls_batches:
  "delegate_batches [a, b, c, d, e] 4 = Some [[a, b, c, d], [e]]"
  "chunkArray [a, b, c, d, e] 4 = Some [[a, b, c, d], [e]]"
  by (simp_all add: delegate_batches_def chunkArray_def chunk_loop.simps slice_def)

theorem chunk_failure_witness:
  "delegate_main
      \<lparr>keyfile_exists = True, answer = ''yes'',
       registry_of = (\<lambda>i k. \<lparr>me_section = [], me_name = [], me_docs = []\<rparr>),
       chain = (\<lambda>i batch.
         if i = 0 then [(1000, Notify \<lparr>status = Dropped, events = [], dispatchError = None\<rparr>)]
         else [(2000, Notify \<lparr>status = Finalized, events = [], dispatchError = None\<rparr>)])\<rparr>
      \<lparr>arg_account = ''A'', arg_keyfile = ''proxy.txt'', arg_delegateTo = ''T'',
       arg_balance = Decimal 650, arg_conviction = ''Locked5x'', arg_dryRun = False,
       arg_network = Some ''kusama'', arg_tracks = [0, 1, 2, 10, 11]\<rparr>
    = Done
        [([Delegate 0 ''T'' ''Locked5x'' 650000000000000,
           Delegate 1 ''T'' ''Locked5x'' 650000000000000,
           Delegate 2 ''T'' ''Locked5x'' 650000000000000,
           Delegate 10 ''T'' ''Locked5x'' 650000000000000], RejectedDropped),
         ([Delegate 11 ''T'' ''Locked5x'' 650000000000000], ResolvedFinalized)]
   \<and> delegate_exit_code
        (delegate_main
          \<lparr>keyfile_exists = True, answer = ''yes'',
           registry_of = (\<lambda>i k. \<lparr>me_section = [], me_name = [], me_docs = []\<rparr>),
           chain = (\<lambda>i batch.
             if i = 0 then [(1000, Notify \<lparr>status = Dropped, events = [], dispatchError = None\<rparr>)]
             else [(2000, Notify \<lparr>status = Finalized, events = [], dispatchError = None\<rparr>)])\<rparr>
          \<lparr>arg_account = ''A'', arg_keyfile = ''proxy.txt'', arg_delegateTo = ''T'',
           arg_balance = Decimal 650, arg_conviction = ''Locked5x'', arg_dryRun = False,
           arg_network = Some ''kusama'', arg_tracks = [0, 1, 2, 10, 11]\<rparr>) = Some 0"
proof -
  let ?reg = "\<lambda>i k :: nat. \<lparr>me_section = [], me_name = [], me_docs = []\<rparr>"
  let ?ch = "\<lambda>(i :: nat) (batch :: operation list).
         if i = 0 then [(1000 :: nat, Notify \<lparr>status = Dropped, events = [], dispatchError = None\<rparr>)]
         else [(2000, Notify \<lparr>status = Finalized, events = [], dispatchError = None\<rparr>)]"
  let ?env = "\<lparr>keyfile_exists = True, answer = ''yes'', registry_of = ?reg, chain = ?ch\<rparr>"
  let ?args = "\<lparr>arg_account = ''A'', arg_keyfile = ''proxy.txt'', arg_delegateTo = ''T'',
       arg_balance = Decimal 650, arg_conviction = ''Locked5x'', arg_dryRun = False,
       arg_network = Some ''kusama'', arg_tracks = [0, 1, 2, 10, 11]\<rparr>"
  let ?nw = "\<lparr>nw_name = ''Kusama Asset Hub'',
         endpoint = ''wss://sys.ibp.network:443/asset-hub-kusama'',
         ss58Format = 2, maxTracksPerBatch = 4, decimals = 12, symbol = ''KSM'',
         baseLockDays = 7\<rparr>"
  have conv: "js_get CONVICTION_MULTIPLIERS ''Locked5x'' \<noteq> Missing"
    by (simp add: js_get_def CONVICTION_MULTIPLIERS_def)
  from balancePlanck_whole [of 12 650] have bal: "balancePlanck (Decimal 650) 12 = Some 650000000000000"
    by simp
  have dropped: "delegate_submission ?reg
      [(1000, Notify \<lparr>status = Dropped, events = [], dispatchError = None\<rparr>)] = Some RejectedDropped"
    by (simp add: delegate_submission_def deliver_def delegate_callback_def monitor_init_def
        monitor_simps TIMEOUT_MS_def)
  have finalized: "delegate_submission ?reg
      [(2000, Notify \<lparr>status = Finalized, events = [], dispatchError = None\<rparr>)] = Some ResolvedFinalized"
    by (simp add: delegate_submission_def deliver_def delegate_callback_def monitor_init_def
        monitor_simps TIMEOUT_MS_def)
  have run: "delegate_main ?env ?args
    = Done
        [([Delegate 0 ''T'' ''Locked5x'' 650000000000000,
           Delegate 1 ''T'' ''Locked5x'' 650000000000000,
           Delegate 2 ''T'' ''Locked5x'' 650000000000000,
           Delegate 10 ''T'' ''Locked5x'' 650000000000000], RejectedDropped),
         ([Delegate 11 ''T'' ''Locked5x'' 650000000000000], ResolvedFinalized)]"
    by (subst delegate_main_run [where nw = ?nw and planck = 650000000000000])
      (simp_all add: js_get_kusama conv bal delegate_calls_def five_calls_batches dropped finalized)
  have pre: "js_get NETWORKS (case arg_network ?args of Some n \<Rightarrow> n | None \<Rightarrow> ''kusama'') = Own ?nw
       \<and> arg_conviction ?args \<in> fst ` set CONVICTION_MULTIPLIERS
       \<and> balancePlanck (arg_balance ?args) (decimals ?nw) = Some 650000000000000
       \<and> keyfile_exists ?env \<and> \<not> arg_dryRun ?args \<and> answer ?env = ''yes''"
    by (simp add: js_get_kusama bal CONVICTION_MULTIPLIERS_def)
  from chunk_failure [where args = ?args and env = ?env, THEN conjunct2, THEN conjunct1,
      rule_format, OF pre]
  have "delegate_exit_code (delegate_main ?env ?args) = Some 0"
    by blast
  with run show ?thesis
    by (rule conjI)
qed

theorem chunk_failure_counterexample:
  "cleanup_main
      \<lparr>c_votingEntries =
         [(0, Delegating ''T'' ''Locked1x'' 5), (1, Delegating ''T'' ''Locked1x'' 5),
          (2, Delegating ''T'' ''Locked1x'' 5), (10, Delegating ''T'' ''Locked1x'' 5),
          (11, Delegating ''T'' ''Locked1x'' 5)],
       c_currentBlock = 1200, c_classLocks = [], c_answer = ''yes'',
       c_registry = (\<lambda>i k. \<lparr>me_section = [], me_name = [], me_docs = []\<rparr>),
       c_chain = (\<lambda>i batch.
         [\<lparr>status = InBlock, events = [], dispatchError = Some (Other ''BadOrigin'')\<rparr>,
          \<lparr>status = Finalized, events = [], dispatchError = Some (Other ''BadOrigin'')\<rparr>])\<rparr>
      \<lparr>nw_name = ''Kusama Asset Hub'',
       endpoint = ''wss://sys.ibp.network:443/asset-hub-kusama'',
       ss58Format = 2, maxTracksPerBatch = 4, decimals = 12, symbol = ''KSM''\<rparr>
      ''A'' False False
    = Fatal
        [([Undelegate 0, Undelegate 1, Undelegate 2, Undelegate 10], DispatchFailed ''BadOrigin'')]
        ''BadOrigin''
   \<and> cleanup_exit_code
        (Fatal
          [([Undelegate 0, Undelegate 1, Undelegate 2, Undelegate 10], DispatchFailed ''BadOrigin'')]
          ''BadOrigin'') = Some 1"
proof -
  let ?es = "[(0 :: int, Delegating ''T'' ''Locked1x'' 5), (1, Delegating ''T'' ''Locked1x'' 5),
          (2, Delegating ''T'' ''Locked1x'' 5), (10, Delegating ''T'' ''Locked1x'' 5),
          (11, Delegating ''T'' ''Locked1x'' 5)]"
  let ?reg = "\<lambda>i k :: nat. \<lparr>me_section = [], me_name = [], me_docs = []\<rparr>"
  let ?ns = "[\<lparr>status = InBlock, events = [], dispatchError = Some (Other ''BadOrigin'')\<rparr>,
          \<lparr>status = Finalized, events = [], dispatchError = Some (Other ''BadOrigin'')\<rparr>]"
  have plan: "cleanup_plan (getVotingInfo ?es 1200 []) ''A'' False
    = [Undelegate 0, Undelegate 1, Undelegate 2, Undelegate 10, Undelegate 11]"
    by code_simp
  have failed: "cleanup_submission ?reg ?ns = Some (DispatchFailed ''BadOrigin'')"
    by (simp add: cleanup_submission_def cleanup_callback_def cleanup_init_def monitor_simps
        error_message_def)
  show ?thesis
    by (simp add: cleanup_main_def plan submitBatchViaProxy_def five_calls_batches failed)
qed

end
